theory Spec2Isabelle
  imports Complex_Main "HOL-Library.AList" "HOL-Library.Sublist" "HOL-Library.Multiset"
begin

section \<open>Python values and errors\<close>

text \<open>
  The exceptions in play: a failed \<^verbatim>\<open>assert\<close>, an attribute looked up on an object that
  does not have it, a missing dictionary key, the tensor library's error for shapes that
  do not broadcast, and the two errors of \<^verbatim>\<open>math.exp\<close>: an argument or a result outside
  the range of a float, and an argument of the wrong type.
\<close>

datatype error =
  AssertionError | AttributeError | KeyError | RuntimeError | OverflowError | TypeError

text \<open>
  A Python \<^verbatim>\<open>dict\<close> is an association list with distinct keys in insertion order:
  \<^verbatim>\<open>d[k] = v\<close> is \<open>AList.update k v d\<close> (overwrite in place, or append a new key),
  \<^verbatim>\<open>d.pop(k, None)\<close> is \<open>AList.delete k d\<close>, \<^verbatim>\<open>d.get(k)\<close> is \<open>map_of d k\<close>, and
  \<^verbatim>\<open>for k in d\<close> walks \<open>map fst d\<close>.
\<close>

section \<open>TreeSum\<close>

text \<open>
  Keys are tuples (\<open>'k list\<close>); \<^verbatim>\<open>key[:-1]\<close> is \<open>butlast key\<close> and the truth value of a
  tuple is \<open>key \<noteq> []\<close>. The stored values are tensors or numbers: the class only ever
  applies \<^verbatim>\<open>+\<close> and \<^verbatim>\<open>torch_exp\<close> to them, so they are a type \<open>'v\<close> with \<open>+\<close>. An entry of
  \<^verbatim>\<open>_upstream\<close> is a value or Python's \<^verbatim>\<open>None\<close>, hence \<open>'v option\<close>. The addition of
  the value type is total: an error of the tensor library on operands that do not
  broadcast is outside this part of the model, and so is the interpreter's recursion limit.
\<close>

record ('k, 'v) TreeSum =
  terms :: "('k list \<times> 'v) list"
  upstream :: "('k list \<times> 'v option) list"
  frozen :: bool

definition TreeSum_init :: "('k, 'v) TreeSum" where
  "TreeSum_init = \<lparr>terms = [], upstream = [], frozen = False\<rparr>"

definition copy :: "('k, 'v) TreeSum \<Rightarrow> ('k, 'v) TreeSum" where
  "copy t = \<lparr>terms = terms t, upstream = upstream t, frozen = frozen t\<rparr>"

definition TreeSum_add ::
  "('k, 'v::plus) TreeSum \<Rightarrow> 'k list \<Rightarrow> 'v \<Rightarrow> error + ('k, 'v) TreeSum" where
  "TreeSum_add t key val =
     (if frozen t then Inl AssertionError
      else (case map_of (terms t) key of
              Some old \<Rightarrow> Inr (t\<lparr>terms := AList.update key (old + val) (terms t)\<rparr>)
            | None \<Rightarrow> Inr (t\<lparr>terms := AList.update key val (terms t)\<rparr>)))"

text \<open>
  \<^verbatim>\<open>get_upstream\<close> returns its result together with the mutated object. A cache hit returns
  at once (and does not touch \<^verbatim>\<open>_frozen\<close>); a miss recurses on the parent key first, then
  stores the result and sets \<^verbatim>\<open>_frozen\<close>.
\<close>

function get_upstream ::
  "('k, 'v::plus) TreeSum \<Rightarrow> 'k list \<Rightarrow> 'v option \<times> ('k, 'v) TreeSum" where
  "get_upstream t key =
     (case map_of (upstream t) key of
        Some cached \<Rightarrow> (cached, t)
      | None \<Rightarrow>
          (let result = map_of (terms t) key;
               (result, t) =
                 (if key \<noteq> [] then
                    (let (up, t) = get_upstream t (butlast key)
                     in (case up of
                           Some u \<Rightarrow>
                             ((case result of None \<Rightarrow> Some u | Some r \<Rightarrow> Some (u + r)), t)
                         | None \<Rightarrow> (result, t)))
                  else (result, t))
           in (result, t\<lparr>upstream := AList.update key result (upstream t), frozen := True\<rparr>)))"
  by pat_completeness auto
termination
  by (relation "measure (\<lambda>(t, key). length key)") auto

definition freeze :: "('k, 'v::plus) TreeSum \<Rightarrow> ('k, 'v) TreeSum" where
  "freeze t = (fold (\<lambda>key s. snd (get_upstream s key)) (map fst (terms t)) t)\<lparr>frozen := True\<rparr>"

definition items ::
  "('k, 'v::plus) TreeSum \<Rightarrow> ('k list \<times> 'v option) list \<times> ('k, 'v) TreeSum" where
  "items t = (let t = freeze t in (upstream t, t))"

text \<open>
  \<^verbatim>\<open>exp\<close> freezes the receiver and builds the result from \<^verbatim>\<open>torch_exp(self._upstream[key])\<close>
  for each key of \<^verbatim>\<open>_terms\<close>. On a stored value \<^verbatim>\<open>torch_exp\<close> is the exponential \<open>ex\<close> of
  the value type (a total function here: the \<^verbatim>\<open>OverflowError\<close> of \<^verbatim>\<open>math.exp\<close> on a stored
  number that is too large belongs to \<open>torch_exp\<close> below, not to this class); on \<^verbatim>\<open>None\<close> it
  raises (\<^verbatim>\<open>None\<close> is no number and has no \<^verbatim>\<open>exp\<close>), and a key
  missing from \<^verbatim>\<open>_upstream\<close> would raise \<^verbatim>\<open>KeyError\<close>. The function returns the outcome and
  the receiver as it is left.
\<close>

fun collect :: "('x \<Rightarrow> error + 'y) \<Rightarrow> 'x list \<Rightarrow> error + 'y list" where
  "collect f [] = Inr []"
| "collect f (x # xs) =
     (case f x of
        Inl e \<Rightarrow> Inl e
      | Inr y \<Rightarrow> (case collect f xs of Inl e \<Rightarrow> Inl e | Inr ys \<Rightarrow> Inr (y # ys)))"

definition exp_entry ::
  "('v \<Rightarrow> 'v) \<Rightarrow> ('k, 'v) TreeSum \<Rightarrow> 'k list \<Rightarrow> error + ('k list \<times> 'v option)" where
  "exp_entry ex t key =
     (case map_of (upstream t) key of
        None \<Rightarrow> Inl KeyError
      | Some None \<Rightarrow> Inl AttributeError
      | Some (Some v) \<Rightarrow> Inr (key, Some (ex v)))"

definition TreeSum_exp ::
  "('v \<Rightarrow> 'v) \<Rightarrow> ('k, 'v::plus) TreeSum \<Rightarrow> (error + ('k, 'v) TreeSum) \<times> ('k, 'v) TreeSum" where
  "TreeSum_exp ex t =
     (let t = freeze t
      in (case collect (exp_entry ex t) (map fst (terms t)) of
            Inl e \<Rightarrow> (Inl e, t)
          | Inr kvs \<Rightarrow> (Inr \<lparr>terms = [], upstream = kvs, frozen = True\<rparr>, t)))"

definition prune :: "('k, 'v) TreeSum \<Rightarrow> 'k list \<Rightarrow> error + ('k, 'v) TreeSum" where
  "prune t key =
     (if \<not> frozen t then Inl AssertionError
      else Inr (t\<lparr>upstream := AList.delete key (upstream t),
                 terms := AList.delete key (terms t)\<rparr>))"

text \<open>
  A history of calls on one instance created by \<^verbatim>\<open>TreeSum()\<close>, and the instance it
  leaves. A call that raises leaves the instance as the code leaves it: \<^verbatim>\<open>add\<close> and
  \<^verbatim>\<open>prune\<close> assert before they touch anything, \<^verbatim>\<open>exp\<close> has frozen the receiver before it
  builds its result. \<^verbatim>\<open>copy\<close> returns a new object and leaves the receiver alone.
\<close>

datatype ('k, 'v) call =
  Add "'k list" 'v | GetUpstream "'k list" | Items | Exp | Prune "'k list" | Copy

fun step :: "('k, 'v::plus) TreeSum \<Rightarrow> ('k, 'v) call \<Rightarrow> ('k, 'v) TreeSum" where
  "step t (Add key val) = (case TreeSum_add t key val of Inl e \<Rightarrow> t | Inr t' \<Rightarrow> t')"
| "step t (GetUpstream key) = snd (get_upstream t key)"
| "step t Items = snd (items t)"
| "step t Exp = freeze t"
| "step t (Prune key) = (case prune t key of Inl e \<Rightarrow> t | Inr t' \<Rightarrow> t')"
| "step t Copy = t"

definition run :: "('k, 'v::plus) call list \<Rightarrow> ('k, 'v) TreeSum" where
  "run cs = foldl step TreeSum_init cs"

fun freezes :: "('k, 'v) call \<Rightarrow> bool" where
  "freezes (GetUpstream key) = True"
| "freezes Items = True"
| "freezes Exp = True"
| "freezes c = False"

text \<open>
  The specification's upstream sum: the local terms at the key and at every proper prefix,
  added from the root downwards, an absent term counting as the additive identity.
\<close>

fun opt_plus :: "'v::plus option \<Rightarrow> 'v option \<Rightarrow> 'v option" where
  "opt_plus None y = y"
| "opt_plus (Some a) None = Some a"
| "opt_plus (Some a) (Some b) = Some (a + b)"

definition upstream_spec :: "('k list \<times> 'v::plus) list \<Rightarrow> 'k list \<Rightarrow> 'v option" where
  "upstream_spec ts key = foldl opt_plus None (map (map_of ts) (prefixes key))"

text \<open>
  The value \<^verbatim>\<open>get_upstream\<close> returns, as a function of the two dictionaries alone: the
  cached entry when there is one, else the parent's value plus the local term.
\<close>

function upstream_val :: "('k, 'v::plus) TreeSum \<Rightarrow> 'k list \<Rightarrow> 'v option" where
  "upstream_val t key =
     (case map_of (upstream t) key of
        Some c \<Rightarrow> c
      | None \<Rightarrow> if key = [] then map_of (terms t) []
                else opt_plus (upstream_val t (butlast key)) (map_of (terms t) key))"
  by pat_completeness auto
termination
  by (relation "measure (\<lambda>(t, key). length key)") auto

text \<open>
  \<open>cache_extends t t'\<close>: the local terms are the same and \<^verbatim>\<open>_upstream\<close> of \<open>t'\<close> is that of
  \<open>t\<close> with further keys cached, each at the value \<^verbatim>\<open>get_upstream\<close> returns for it.
\<close>

definition cache_extends :: "('k, 'v::plus) TreeSum \<Rightarrow> ('k, 'v) TreeSum \<Rightarrow> bool" where
  "cache_extends t t' \<longleftrightarrow>
     terms t' = terms t \<and>
     (\<forall>k. map_of (upstream t') k = map_of (upstream t) k \<or>
          (map_of (upstream t) k = None \<and> map_of (upstream t') k = Some (upstream_val t k)))"

text \<open>
  A cache is coherent when every cached entry is the upstream sum of the current local
  terms, and prefix-closed when the parent of every cached key is cached as well.
\<close>

definition coherent :: "('k, 'v::plus) TreeSum \<Rightarrow> bool" where
  "coherent t \<longleftrightarrow>
     (\<forall>k c. map_of (upstream t) k = Some c \<longrightarrow> c = upstream_spec (terms t) k)"

definition prefix_closed :: "('k, 'v) TreeSum \<Rightarrow> bool" where
  "prefix_closed t \<longleftrightarrow>
     (\<forall>k. k \<noteq> [] \<longrightarrow> map_of (upstream t) k \<noteq> None \<longrightarrow> map_of (upstream t) (butlast k) \<noteq> None)"



fun is_prune :: "('k, 'v) call \<Rightarrow> bool" where
  "is_prune (Prune key) = True"
| "is_prune c = False"


text \<open>
  The local terms as a map, after one \<^verbatim>\<open>add\<close> of a key and a value.
\<close>

definition merge_term :: "'k list \<times> 'v::plus \<Rightarrow> ('k list \<rightharpoonup> 'v) \<Rightarrow> ('k list \<rightharpoonup> 'v)" where
  "merge_term kv m =
     m(fst kv \<mapsto> (case m (fst kv) of None \<Rightarrow> snd kv | Some old \<Rightarrow> old + snd kv))"

section \<open>Tensors\<close>

text \<open>
  The tensor type belongs to the tensor library, not to the module. It is modelled by what
  the module needs of it: a shape and the elements in row-major order, real-valued
  (rounding and overflow of floating-point numbers are not modelled). \<open>indices s\<close> lists the multi-indices of the shape \<open>s\<close> in
  row-major order, \<open>element t idx\<close> reads the element at a multi-index and \<open>tabulate s f\<close>
  builds the tensor of shape \<open>s\<close> whose element at \<open>idx\<close> is \<open>f idx\<close>.
\<close>

datatype tensor = Tensor (shape: "nat list") (data: "real list")

definition well_shaped :: "tensor \<Rightarrow> bool" where
  "well_shaped t \<longleftrightarrow> length (data t) = prod_list (shape t)"

fun indices :: "nat list \<Rightarrow> nat list list" where
  "indices [] = [[]]"
| "indices (n # ns) = concat (map (\<lambda>i. map ((#) i) (indices ns)) [0..<n])"

definition element :: "tensor \<Rightarrow> nat list \<Rightarrow> real" where
  "element t idx =
     (case map_of (zip (indices (shape t)) (data t)) idx of Some x \<Rightarrow> x | None \<Rightarrow> 0)"

definition tabulate :: "nat list \<Rightarrow> (nat list \<Rightarrow> real) \<Rightarrow> tensor" where
  "tabulate s f = Tensor s (map f (indices s))"

text \<open>
  The operations the module calls: \<^verbatim>\<open>x.dim()\<close>, \<^verbatim>\<open>x.size(-k)\<close> (for \<open>1 \<le> k \<le> dim x\<close>, the
  only way the module calls it), \<^verbatim>\<open>x.sum(0)\<close> (which removes the first axis),
  \<^verbatim>\<open>x.sum(-k, keepdim=True)\<close> (which keeps the summed axis with size 1), \<^verbatim>\<open>x.sum()\<close> (a
  tensor without axes holding the total) and \<^verbatim>\<open>x.exp()\<close>.
\<close>

definition dim :: "tensor \<Rightarrow> nat" where
  "dim t = length (shape t)"

definition size_neg :: "tensor \<Rightarrow> nat \<Rightarrow> nat" where
  "size_neg t k = shape t ! (dim t - k)"

definition sum0 :: "tensor \<Rightarrow> tensor" where
  "sum0 t = tabulate (tl (shape t)) (\<lambda>idx. \<Sum>i\<leftarrow>[0..<hd (shape t)]. element t (i # idx))"

definition sum_keepdim :: "tensor \<Rightarrow> nat \<Rightarrow> tensor" where
  "sum_keepdim t k =
     (let d = dim t - k
      in tabulate ((shape t)[d := 1]) (\<lambda>idx. \<Sum>i\<leftarrow>[0..<shape t ! d]. element t (idx[d := i])))"

definition sum_all :: "tensor \<Rightarrow> tensor" where
  "sum_all t = Tensor [] [sum_list (data t)]"

definition tensor_exp :: "tensor \<Rightarrow> tensor" where
  "tensor_exp t = Tensor (shape t) (map exp (data t))"

text \<open>
  Broadcasting. A shape \<open>s\<close> expands to \<open>s'\<close> when \<open>s'\<close> has at least as many axes and,
  aligned at the last axis, every axis of \<open>s\<close> has the size of its partner or size 1.
  The element of the expansion at \<open>idx\<close> is the element of the original at
  \<open>source_index s idx\<close>: the leading indices dropped, the index on a size-1 axis set to 0.
  \<^verbatim>\<open>a + b\<close> expands both operands to their common shape and adds elementwise; it raises
  when the shapes have no common shape. The common shape is found from the last axis
  leftwards: equal sizes agree, size 1 gives way to the other size, and the longer shape
  supplies the axes the shorter one lacks.
\<close>

definition source_index :: "nat list \<Rightarrow> nat list \<Rightarrow> nat list" where
  "source_index s idx =
     map2 (\<lambda>n i. if n = 1 then 0 else i) s (drop (length idx - length s) idx)"

definition expandable :: "nat list \<Rightarrow> nat list \<Rightarrow> bool" where
  "expandable s s' \<longleftrightarrow>
     length s \<le> length s' \<and>
     list_all2 (\<lambda>n n'. n = n' \<or> n = 1) s (drop (length s' - length s) s')"

definition expand :: "tensor \<Rightarrow> nat list \<Rightarrow> tensor" where
  "expand t s' = tabulate s' (\<lambda>idx. element t (source_index (shape t) idx))"

fun broadcast_rev :: "nat list \<Rightarrow> nat list \<Rightarrow> nat list option" where
  "broadcast_rev [] ys = Some ys"
| "broadcast_rev xs [] = Some xs"
| "broadcast_rev (x # xs) (y # ys) =
     (if x = y \<or> x = 1 \<or> y = 1
      then map_option ((#) (if x = 1 then y else x)) (broadcast_rev xs ys)
      else None)"

definition broadcast_shapes :: "nat list \<Rightarrow> nat list \<Rightarrow> nat list option" where
  "broadcast_shapes a b = map_option rev (broadcast_rev (rev a) (rev b))"

definition tensor_add :: "tensor \<Rightarrow> tensor \<Rightarrow> error + tensor" where
  "tensor_add a b =
     (case broadcast_shapes (shape a) (shape b) of
        None \<Rightarrow> Inl RuntimeError
      | Some s \<Rightarrow> Inr (Tensor s (map2 (+) (data (expand a s)) (data (expand b s)))))"

text \<open>
  Modelled from the spec: \<^verbatim>\<open>sum_leftmost\<close> is imported from \<^verbatim>\<open>pyro.distributions.util\<close>,
  which is not among the sources. The module calls it with a negative second argument
  \<open>- dim\<close>, for which the tensor is reduced over its leftmost \<open>rank - dim\<close> axes, summing
  out everything except the last \<open>dim\<close> axes; a non-negative argument counts the leftmost
  axes to sum.
\<close>

definition sum_leftmost :: "tensor \<Rightarrow> int \<Rightarrow> tensor" where
  "sum_leftmost val d =
     (let n = (if d < 0 then dim val - nat (- d) else min (nat d) (dim val))
      in tabulate (drop n (shape val))
           (\<lambda>idx. \<Sum>lead\<leftarrow>indices (take n (shape val)). element val (lead @ idx)))"

section \<open>The number-or-tensor helpers\<close>

text \<open>
  A value handed to the helpers is a Python number or a \<^verbatim>\<open>Variable\<close>. \<open>Number x\<close> is a
  finite \<^verbatim>\<open>int\<close> or \<^verbatim>\<open>float\<close> of value \<open>x\<close> (rounding, infinities and NaN are not modelled),
  \<open>ComplexNumber z\<close> a Python \<^verbatim>\<open>complex\<close>, which passes \<^verbatim>\<open>isinstance(x, numbers.Number)\<close> as
  well.

  \<^verbatim>\<open>math.exp\<close> converts its argument to a float and computes the exponential in floats. It
  raises \<^verbatim>\<open>OverflowError\<close> when the argument is an \<^verbatim>\<open>int\<close> too large to convert, or when the
  result is too large for a float, and \<^verbatim>\<open>TypeError\<close> on a \<^verbatim>\<open>complex\<close>. \<open>float_limit\<close> is the
  least magnitude that does not round to a finite float: the largest float is
  \<open>2 ^ 1024 - 2 ^ 971\<close>, and the floats are \<open>2 ^ 971\<close> apart there. A result that is too
  small rounds to zero and is returned. The tensor method \<^verbatim>\<open>x.exp()\<close> does not raise.

  \<^verbatim>\<open>x.data.sum()\<close> is a plain number. \<^verbatim>\<open>torch_backward\<close> returns nothing; its effect is the
  call of \<^verbatim>\<open>x.backward()\<close>, recorded in the list of variables on which it was called.
\<close>

datatype pyval = Number real | ComplexNumber complex | Variable tensor

definition float_limit :: real where
  "float_limit = 2 ^ 1024 - 2 ^ 970"

definition math_exp :: "real \<Rightarrow> error + real" where
  "math_exp x =
     (if float_limit \<le> \<bar>x\<bar> then Inl OverflowError
      else if float_limit \<le> exp x then Inl OverflowError
      else Inr (exp x))"

fun torch_exp :: "pyval \<Rightarrow> error + pyval" where
  "torch_exp (Number x) = (case math_exp x of Inl e \<Rightarrow> Inl e | Inr y \<Rightarrow> Inr (Number y))"
| "torch_exp (ComplexNumber z) = Inl TypeError"
| "torch_exp (Variable x) = Inr (Variable (tensor_exp x))"

fun torch_data_sum :: "pyval \<Rightarrow> pyval" where
  "torch_data_sum (Number x) = Number x"
| "torch_data_sum (ComplexNumber z) = ComplexNumber z"
| "torch_data_sum (Variable x) = Number (sum_list (data x))"

fun torch_sum :: "pyval \<Rightarrow> pyval" where
  "torch_sum (Number x) = Number x"
| "torch_sum (ComplexNumber z) = ComplexNumber z"
| "torch_sum (Variable x) = Variable (sum_all x)"

fun torch_backward :: "pyval \<Rightarrow> tensor list \<Rightarrow> tensor list" where
  "torch_backward (Variable x) called = called @ [x]"
| "torch_backward (Number x) called = called"
| "torch_backward (ComplexNumber z) called = called"

section \<open>The reduction helpers\<close>

text \<open>
  The \<^verbatim>\<open>while\<close> loop of both helpers is \<open>sum_leading\<close>; it ends because \<^verbatim>\<open>sum(0)\<close> removes
  an axis. The \<^verbatim>\<open>for\<close> loop runs over \<^verbatim>\<open>range(1, 1 + source.dim())\<close>, evaluated once when
  the loop starts; \<^verbatim>\<open>shape[-k]\<close> is \<open>shp ! (length shp - k)\<close>, in range because the first loop
  has left \<open>dim source \<le> length shp\<close>.
\<close>

function sum_leading :: "tensor \<Rightarrow> nat \<Rightarrow> tensor" where
  "sum_leading source n = (if dim source > n then sum_leading (sum0 source) n else source)"
  by pat_completeness auto
termination
  by (relation "measure (\<lambda>(source, n). dim source)") (auto simp: dim_def sum0_def tabulate_def)

definition reduce_to_target :: "tensor \<Rightarrow> tensor \<Rightarrow> tensor" where
  "reduce_to_target source target =
     (let source = sum_leading source (dim target)
      in fold (\<lambda>k source. if size_neg source k > size_neg target k
                          then sum_keepdim source k else source)
           [1..<1 + dim source] source)"

definition reduce_to_shape :: "tensor \<Rightarrow> nat list \<Rightarrow> tensor" where
  "reduce_to_shape source shp =
     (let source = sum_leading source (length shp)
      in fold (\<lambda>k source. if size_neg source k > shp ! (length shp - k)
                          then sum_keepdim source k else source)
           [1..<1 + dim source] source)"

section \<open>MultiViewTensor\<close>

text \<open>
  A \<^verbatim>\<open>MultiViewTensor\<close> is a dictionary from shapes to tensors. The argument of \<^verbatim>\<open>add\<close> is
  tested with \<^verbatim>\<open>isinstance(term, Variable)\<close>; anything else is asked for \<^verbatim>\<open>term.items()\<close>,
  which a dictionary has and a number has not.
\<close>

type_synonym MultiViewTensor = "(nat list \<times> tensor) list"

datatype add_argument = Val pyval | Dict MultiViewTensor

definition MultiViewTensor_init :: "pyval option \<Rightarrow> MultiViewTensor" where
  "MultiViewTensor_init val =
     (case val of
        None \<Rightarrow> []
      | Some (Variable x) \<Rightarrow> [(shape x, x)]
      | Some (Number x) \<Rightarrow> []
      | Some (ComplexNumber z) \<Rightarrow> [])"

definition add_entry :: "MultiViewTensor \<Rightarrow> nat list \<Rightarrow> tensor \<Rightarrow> error + MultiViewTensor" where
  "add_entry m shp val =
     (case map_of m shp of
        Some old \<Rightarrow>
          (case tensor_add old val of
             Inl e \<Rightarrow> Inl e
           | Inr new \<Rightarrow> Inr (AList.update shp new m))
      | None \<Rightarrow> Inr (AList.update shp val m))"

fun add_entries ::
  "MultiViewTensor \<Rightarrow> (nat list \<times> tensor) list \<Rightarrow> error + MultiViewTensor" where
  "add_entries m [] = Inr m"
| "add_entries m ((shp, val) # rest) =
     (case add_entry m shp val of Inl e \<Rightarrow> Inl e | Inr m' \<Rightarrow> add_entries m' rest)"

fun MultiViewTensor_add :: "MultiViewTensor \<Rightarrow> add_argument \<Rightarrow> error + MultiViewTensor" where
  "MultiViewTensor_add m (Val (Variable x)) = add_entry m (shape x) x"
| "MultiViewTensor_add m (Val (Number x)) = Inl AttributeError"
| "MultiViewTensor_add m (Val (ComplexNumber z)) = Inl AttributeError"
| "MultiViewTensor_add m (Dict d) = add_entries m d"

fun sum_leftmost_all_but_loop ::
  "int \<Rightarrow> (nat list \<times> tensor) list \<Rightarrow> MultiViewTensor \<Rightarrow> error + MultiViewTensor" where
  "sum_leftmost_all_but_loop d [] result = Inr result"
| "sum_leftmost_all_but_loop d ((shp, x) # rest) result =
     (case (if d = 0 then MultiViewTensor_add result (Val (Variable (sum_all x)))
            else if d > int (dim x) then MultiViewTensor_add result (Val (Variable x))
            else MultiViewTensor_add result (Val (Variable (sum_leftmost x (- d))))) of
        Inl e \<Rightarrow> Inl e
      | Inr result' \<Rightarrow> sum_leftmost_all_but_loop d rest result')"

definition sum_leftmost_all_but :: "MultiViewTensor \<Rightarrow> int \<Rightarrow> error + MultiViewTensor" where
  "sum_leftmost_all_but m d =
     (if \<not> d \<ge> 0 then Inl AssertionError
      else sum_leftmost_all_but_loop d m (MultiViewTensor_init None))"

text \<open>
  Python's \<^verbatim>\<open>sum\<close> starts from the number 0 and adds the items from left to right; a number
  plus a tensor adds the number to every element. The module only ever sums tensors; a
  \<^verbatim>\<open>complex\<close> adds to a number as a complex number, and the tensor library refuses it.
\<close>

fun py_add :: "pyval \<Rightarrow> pyval \<Rightarrow> error + pyval" where
  "py_add (Number a) (Number b) = Inr (Number (a + b))"
| "py_add (Number a) (Variable y) = Inr (Variable (Tensor (shape y) (map (\<lambda>v. a + v) (data y))))"
| "py_add (Variable x) (Number b) = Inr (Variable (Tensor (shape x) (map (\<lambda>v. v + b) (data x))))"
| "py_add (Variable x) (Variable y) =
     (case tensor_add x y of Inl e \<Rightarrow> Inl e | Inr z \<Rightarrow> Inr (Variable z))"
| "py_add (Number a) (ComplexNumber b) = Inr (ComplexNumber (complex_of_real a + b))"
| "py_add (ComplexNumber a) (Number b) = Inr (ComplexNumber (a + complex_of_real b))"
| "py_add (ComplexNumber a) (ComplexNumber b) = Inr (ComplexNumber (a + b))"
| "py_add (ComplexNumber a) (Variable y) = Inl TypeError"
| "py_add (Variable x) (ComplexNumber b) = Inl TypeError"

fun py_sum_from :: "pyval \<Rightarrow> pyval list \<Rightarrow> error + pyval" where
  "py_sum_from acc [] = Inr acc"
| "py_sum_from acc (x # xs) =
     (case py_add acc x of Inl e \<Rightarrow> Inl e | Inr acc' \<Rightarrow> py_sum_from acc' xs)"

definition py_sum :: "pyval list \<Rightarrow> error + pyval" where
  "py_sum xs = py_sum_from (Number 0) xs"

definition contract_as :: "MultiViewTensor \<Rightarrow> tensor \<Rightarrow> error + pyval" where
  "contract_as m target =
     (if m = [] then Inr (Number 0)
      else py_sum (map (\<lambda>x. Variable (reduce_to_target x target)) (map snd m)))"

definition contract :: "MultiViewTensor \<Rightarrow> nat list \<Rightarrow> error + pyval" where
  "contract m shp =
     (if m = [] then Inr (Number 0)
      else py_sum (map (\<lambda>x. Variable (reduce_to_shape x shp)) (map snd m)))"

text \<open>
  An accumulator built by the class keys every tensor by its own shape.
\<close>

definition keyed_by_shape :: "MultiViewTensor \<Rightarrow> bool" where
  "keyed_by_shape m \<longleftrightarrow>
     distinct (map fst m) \<and> (\<forall>(shp, x) \<in> set m. shape x = shp \<and> well_shaped x)"

section \<open>Auxiliary notions for the proofs\<close>

text \<open>
  A sequence of \<^verbatim>\<open>add\<close> calls with tensors; the sum of the tensors of one shape in a list,
  element by element; what the group reduction makes of one stored tensor, in the
  specification's words; and the common shape of a list of shapes.
\<close>

fun add_terms :: "MultiViewTensor \<Rightarrow> tensor list \<Rightarrow> error + MultiViewTensor" where
  "add_terms m [] = Inr m"
| "add_terms m (x # xs) =
     (case MultiViewTensor_add m (Val (Variable x)) of
        Inl e \<Rightarrow> Inl e
      | Inr m' \<Rightarrow> add_terms m' xs)"

definition same_shape_sum :: "nat list \<Rightarrow> tensor list \<Rightarrow> tensor option" where
  "same_shape_sum s xs =
     (if filter (\<lambda>x. shape x = s) xs = [] then None
      else Some (tabulate s (\<lambda>idx. \<Sum>x\<leftarrow>filter (\<lambda>x. shape x = s) xs. element x idx)))"

definition group_reduced :: "int \<Rightarrow> tensor \<Rightarrow> tensor" where
  "group_reduced d x =
     (if d = 0 then Tensor [] [sum_list (data x)]
      else if int (dim x) < d then x
      else tabulate (drop (dim x - nat d) (shape x))
             (\<lambda>idx. \<Sum>lead\<leftarrow>indices (take (dim x - nat d) (shape x)). element x (lead @ idx)))"

fun expands_rev :: "nat list \<Rightarrow> nat list \<Rightarrow> bool" where
  "expands_rev [] ys = True"
| "expands_rev (x # xs) [] = False"
| "expands_rev (x # xs) (y # ys) = ((x = y \<or> x = 1) \<and> expands_rev xs ys)"

definition broadcast_all :: "nat list list \<Rightarrow> nat list option" where
  "broadcast_all ss = fold (\<lambda>s acc. Option.bind acc (\<lambda>a. broadcast_shapes a s)) ss (Some [])"

definition scale :: "real \<Rightarrow> tensor \<Rightarrow> tensor" where
  "scale c t = Tensor (shape t) (map ((*) c) (data t))"

definition broadcast_gain :: "nat list \<Rightarrow> nat list \<Rightarrow> nat" where
  "broadcast_gain ps us = prod_list (map2 (\<lambda>p u. if p < u then u else 1) ps us)"

definition broadcasts_to :: "nat \<Rightarrow> nat \<Rightarrow> bool" where
  "broadcasts_to p u \<longleftrightarrow> p = u \<or> (p = 1 \<and> 1 < u)"

section \<open>Properties of TreeSum\<close>

declare get_upstream.simps [simp del]
declare upstream_val.simps [simp del]

lemma get_upstream_hit:
  "map_of (upstream t) key = Some c \<Longrightarrow> get_upstream t key = (c, t)"
  by (subst get_upstream.simps) simp

lemma get_upstream_root:
  "map_of (upstream t) [] = None \<Longrightarrow>
   get_upstream t [] =
     (map_of (terms t) [],
      t\<lparr>upstream := AList.update [] (map_of (terms t) []) (upstream t), frozen := True\<rparr>)"
  by (subst get_upstream.simps) (simp add: Let_def)

lemma get_upstream_miss:
  "map_of (upstream t) key = None \<Longrightarrow> key \<noteq> [] \<Longrightarrow>
   get_upstream t key =
     (opt_plus (fst (get_upstream t (butlast key))) (map_of (terms t) key),
      (snd (get_upstream t (butlast key)))
        \<lparr>upstream := AList.update key
           (opt_plus (fst (get_upstream t (butlast key))) (map_of (terms t) key))
           (upstream (snd (get_upstream t (butlast key)))),
         frozen := True\<rparr>)"
  by (subst get_upstream.simps)
     (auto simp: Let_def split: prod.splits option.splits)

lemma get_upstream_cases [case_names hit root miss]:
  assumes "\<And>c. map_of (upstream t) key = Some c \<Longrightarrow> P"
    and "map_of (upstream t) key = None \<Longrightarrow> key = [] \<Longrightarrow> P"
    and "map_of (upstream t) key = None \<Longrightarrow> key \<noteq> [] \<Longrightarrow> P"
  shows P
  using assms by (cases "map_of (upstream t) key") blast+

lemma upstream_val_hit: "map_of (upstream t) key = Some c \<Longrightarrow> upstream_val t key = c"
  by (subst upstream_val.simps) simp

lemma upstream_val_root: "map_of (upstream t) [] = None \<Longrightarrow> upstream_val t [] = map_of (terms t) []"
  by (subst upstream_val.simps) simp

lemma upstream_val_miss:
  "map_of (upstream t) key = None \<Longrightarrow> key \<noteq> [] \<Longrightarrow>
   upstream_val t key = opt_plus (upstream_val t (butlast key)) (map_of (terms t) key)"
  by (subst upstream_val.simps) simp

lemma cache_extends_refl: "cache_extends t t"
  by (simp add: cache_extends_def)

lemma cache_extends_terms: "cache_extends t t' \<Longrightarrow> terms t' = terms t"
  by (simp add: cache_extends_def)

lemma cache_extends_entry:
  "cache_extends t t' \<Longrightarrow>
   map_of (upstream t') k = map_of (upstream t) k \<or>
   (map_of (upstream t) k = None \<and> map_of (upstream t') k = Some (upstream_val t k))"
  by (simp add: cache_extends_def)

lemma cache_extends_val:
  "cache_extends t t' \<Longrightarrow> upstream_val t' key = upstream_val t key"
proof (induction key rule: length_induct)
  case (1 key)
  note ext = \<open>cache_extends t t'\<close>
  show ?case
  proof (cases "map_of (upstream t') key")
    case None
    with cache_extends_entry[OF ext, of key] have n: "map_of (upstream t) key = None"
      by auto
    show ?thesis
    proof (cases "key = []")
      case True
      with None n ext show ?thesis
        by (simp add: upstream_val_root cache_extends_def)
    next
      case False
      then have "length (butlast key) < length key" by simp
      with 1 have "upstream_val t' (butlast key) = upstream_val t (butlast key)" by blast
      with None n False ext show ?thesis
        by (simp add: upstream_val_miss cache_extends_def)
    qed
  next
    case (Some c)
    with cache_extends_entry[OF ext, of key] have "c = upstream_val t key"
      by (auto simp: upstream_val_hit[OF sym])
    with Some show ?thesis by (simp add: upstream_val_hit)
  qed
qed

lemma cache_extends_trans:
  assumes "cache_extends t t1" "cache_extends t1 t2"
  shows "cache_extends t t2"
  unfolding cache_extends_def
proof (intro conjI allI)
  show "terms t2 = terms t" using assms by (simp add: cache_extends_def)
next
  fix k
  show "map_of (upstream t2) k = map_of (upstream t) k \<or>
        (map_of (upstream t) k = None \<and> map_of (upstream t2) k = Some (upstream_val t k))"
    using cache_extends_entry[OF assms(1), of k] cache_extends_entry[OF assms(2), of k]
      cache_extends_val[OF assms(1), of k]
    by auto
qed

lemma cache_extends_update:
  assumes "map_of (upstream t) key = None" "cache_extends t t1"
  shows "cache_extends t (t1\<lparr>upstream := AList.update key (upstream_val t key) (upstream t1), frozen := b\<rparr>)"
  unfolding cache_extends_def
proof (intro conjI allI)
  show "terms (t1\<lparr>upstream := AList.update key (upstream_val t key) (upstream t1), frozen := b\<rparr>) = terms t"
    using assms(2) by (simp add: cache_extends_def)
next
  fix k
  show "map_of (upstream (t1\<lparr>upstream := AList.update key (upstream_val t key) (upstream t1), frozen := b\<rparr>)) k = map_of (upstream t) k \<or>
        (map_of (upstream t) k = None \<and> map_of (upstream (t1\<lparr>upstream := AList.update key (upstream_val t key) (upstream t1), frozen := b\<rparr>)) k = Some (upstream_val t k))"
    using cache_extends_entry[OF assms(2), of k] assms(1)
    by (simp add: update_conv')
qed

lemma get_upstream_sound:
  "fst (get_upstream t key) = upstream_val t key \<and>
   cache_extends t (snd (get_upstream t key)) \<and>
   map_of (upstream (snd (get_upstream t key))) key \<noteq> None"
proof (induction key rule: length_induct)
  case (1 key)
  show ?case
  proof (cases t key rule: get_upstream_cases)
    case (hit c)
    then show ?thesis
      by (simp add: get_upstream_hit upstream_val_hit cache_extends_refl)
  next
    case root
    have "cache_extends t (t\<lparr>upstream := AList.update [] (upstream_val t []) (upstream t), frozen := True\<rparr>)"
      using root cache_extends_refl by (intro cache_extends_update) auto
    with root show ?thesis
      by (simp add: get_upstream_root upstream_val_root update_conv')
  next
    case miss
    then have "length (butlast key) < length key" by simp
    with 1 have ih: "fst (get_upstream t (butlast key)) = upstream_val t (butlast key)"
      "cache_extends t (snd (get_upstream t (butlast key)))" by blast+
    have v: "opt_plus (fst (get_upstream t (butlast key))) (map_of (terms t) key) = upstream_val t key"
      using miss ih(1) by (simp add: upstream_val_miss)
    show ?thesis
      using miss cache_extends_update[OF miss(1) ih(2), of True]
      by (simp add: get_upstream_miss v update_conv')
  qed
qed


lemma get_upstream_val: "fst (get_upstream t key) = upstream_val t key"
  using get_upstream_sound[of t key] by simp

lemma get_upstream_extends: "cache_extends t (snd (get_upstream t key))"
  using get_upstream_sound[of t key] by simp

lemma get_upstream_cached: "map_of (upstream (snd (get_upstream t key))) key \<noteq> None"
  using get_upstream_sound[of t key] by simp

lemma get_upstream_terms: "terms (snd (get_upstream t key)) = terms t"
  using get_upstream_extends[of t key] by (rule cache_extends_terms)

lemma get_upstream_frozen_miss:
  "map_of (upstream t) key = None \<Longrightarrow> frozen (snd (get_upstream t key))"
  by (cases "key = []") (simp_all add: get_upstream_root get_upstream_miss)

lemma get_upstream_frozen: "frozen t \<Longrightarrow> frozen (snd (get_upstream t key))"
  by (cases "map_of (upstream t) key")
     (auto simp: get_upstream_frozen_miss get_upstream_hit)

lemma cache_extends_cached:
  "cache_extends t t' \<Longrightarrow> map_of (upstream t) k \<noteq> None \<Longrightarrow> map_of (upstream t') k \<noteq> None"
  using cache_extends_entry[of t t' k] by auto

lemma fold_get_upstream:
  "cache_extends t (fold (\<lambda>key s. snd (get_upstream s key)) ks t) \<and>
   (\<forall>k \<in> set ks. map_of (upstream (fold (\<lambda>key s. snd (get_upstream s key)) ks t)) k \<noteq> None)"
proof (induction ks arbitrary: t)
  case Nil
  show ?case by (simp add: cache_extends_refl)
next
  case (Cons k ks)
  let ?t1 = "snd (get_upstream t k)"
  let ?t2 = "fold (\<lambda>key s. snd (get_upstream s key)) ks ?t1"
  have e1: "cache_extends t ?t1" by (rule get_upstream_extends)
  have e2: "cache_extends ?t1 ?t2" using Cons.IH[of ?t1] by simp
  have "map_of (upstream ?t2) k \<noteq> None"
    using cache_extends_cached[OF e2 get_upstream_cached] .
  moreover have "\<forall>k' \<in> set ks. map_of (upstream ?t2) k' \<noteq> None"
    using Cons.IH[of ?t1] by simp
  ultimately show ?case
    using cache_extends_trans[OF e1 e2] by simp
qed

lemma fold_get_upstream_frozen:
  "frozen t \<Longrightarrow> frozen (fold (\<lambda>key s. snd (get_upstream s key)) ks t)"
  by (induction ks arbitrary: t) (simp_all add: get_upstream_frozen)

lemma fold_get_upstream_hits:
  "\<forall>k \<in> set ks. map_of (upstream t) k \<noteq> None \<Longrightarrow>
   fold (\<lambda>key s. snd (get_upstream s key)) ks t = t"
  by (induction ks) (auto simp: get_upstream_hit)

lemma freeze_frozen: "frozen (freeze t)"
  by (simp add: freeze_def)

lemma freeze_extends: "cache_extends t (freeze t)"
  using fold_get_upstream[of t "map fst (terms t)"]
  by (simp add: freeze_def cache_extends_def)

lemma freeze_terms: "terms (freeze t) = terms t"
  using freeze_extends[of t] by (rule cache_extends_terms)

lemma freeze_cached:
  "k \<in> fst ` set (terms t) \<Longrightarrow> map_of (upstream (freeze t)) k \<noteq> None"
  using fold_get_upstream[of t "map fst (terms t)"]
  by (force simp: freeze_def)

lemma freeze_hits:
  "\<forall>k \<in> fst ` set (terms t). map_of (upstream t) k \<noteq> None \<Longrightarrow>
   upstream (freeze t) = upstream t"
  using fold_get_upstream_hits[of "map fst (terms t)" t]
  by (simp add: freeze_def)

lemma foldl_opt_plus_None:
  "foldl opt_plus a xs = None \<longleftrightarrow> a = None \<and> (\<forall>x \<in> set xs. x = None)"
proof (induction xs arbitrary: a)
  case Nil
  show ?case by simp
next
  case (Cons x xs)
  have "opt_plus a x = None \<longleftrightarrow> a = None \<and> x = None"
    by (cases a; cases x) simp_all
  with Cons show ?case by auto
qed

lemma upstream_spec_root: "upstream_spec ts [] = map_of ts []"
  by (simp add: upstream_spec_def)

lemma upstream_spec_step:
  "key \<noteq> [] \<Longrightarrow>
   upstream_spec ts key = opt_plus (upstream_spec ts (butlast key)) (map_of ts key)"
proof -
  assume "key \<noteq> []"
  then have "key = butlast key @ [last key]" by simp
  then have "prefixes key = prefixes (butlast key) @ [key]"
    by (metis prefixes_snoc)
  then show ?thesis by (simp add: upstream_spec_def)
qed

lemma upstream_spec_None:
  "upstream_spec ts key = None \<longleftrightarrow> (\<forall>p \<in> set (prefixes key). map_of ts p = None)"
  by (auto simp: upstream_spec_def foldl_opt_plus_None)

lemma coherent_val:
  "coherent t \<Longrightarrow> upstream_val t key = upstream_spec (terms t) key"
proof (induction key rule: length_induct)
  case (1 key)
  show ?case
  proof (cases t key rule: get_upstream_cases)
    case (hit c)
    with \<open>coherent t\<close> show ?thesis by (simp add: coherent_def upstream_val_hit)
  next
    case root
    then show ?thesis by (simp add: upstream_val_root upstream_spec_root)
  next
    case miss
    then have "length (butlast key) < length key" by simp
    with 1 have "upstream_val t (butlast key) = upstream_spec (terms t) (butlast key)" by blast
    with miss show ?thesis by (simp add: upstream_val_miss upstream_spec_step)
  qed
qed

lemma coherent_extends:
  assumes "coherent t" "cache_extends t t'"
  shows "coherent t'"
  unfolding coherent_def
proof (intro allI impI)
  fix k c
  assume "map_of (upstream t') k = Some c"
  with cache_extends_entry[OF assms(2), of k] coherent_val[OF assms(1), of k] assms(1)
  show "c = upstream_spec (terms t') k"
    by (auto simp: coherent_def cache_extends_terms[OF assms(2)])
qed

lemma prefix_closed_get_upstream:
  "prefix_closed t \<Longrightarrow> prefix_closed (snd (get_upstream t key))"
proof (induction key rule: length_induct)
  case (1 key)
  note pc = \<open>prefix_closed t\<close>
  show ?case
  proof (cases t key rule: get_upstream_cases)
    case (hit c)
    with pc show ?thesis by (simp add: get_upstream_hit)
  next
    case root
    with pc show ?thesis
      by (auto simp: get_upstream_root prefix_closed_def update_conv')
  next
    case miss
    then have "length (butlast key) < length key" by simp
    with 1 pc have "prefix_closed (snd (get_upstream t (butlast key)))" by blast
    with miss get_upstream_cached[of t "butlast key"] show ?thesis
      by (auto simp: get_upstream_miss prefix_closed_def update_conv')
  qed
qed

lemma prefix_closed_fold:
  "prefix_closed t \<Longrightarrow> prefix_closed (fold (\<lambda>key s. snd (get_upstream s key)) ks t)"
  by (induction ks arbitrary: t) (simp_all add: prefix_closed_get_upstream)

lemma prefix_closed_freeze: "prefix_closed t \<Longrightarrow> prefix_closed (freeze t)"
  using prefix_closed_fold[of t "map fst (terms t)"]
  by (simp add: freeze_def prefix_closed_def)

lemma prefix_closed_prefix:
  "prefix_closed t \<Longrightarrow> map_of (upstream t) (p @ q) \<noteq> None \<Longrightarrow> map_of (upstream t) p \<noteq> None"
proof (induction q rule: rev_induct)
  case Nil
  then show ?case by simp
next
  case (snoc x q)
  from snoc.prems have "map_of (upstream t) (butlast (p @ q @ [x])) \<noteq> None"
    unfolding prefix_closed_def by (metis append_is_Nil_conv not_Cons_self2)
  then have "map_of (upstream t) (p @ q) \<noteq> None"
    by (simp add: butlast_append)
  with snoc show ?case by simp
qed


lemma run_snoc: "run (cs @ [c]) = step (run cs) c"
  by (simp add: run_def)

lemma step_unfrozen_cache:
  assumes "\<not> frozen t \<longrightarrow> upstream t = []"
  shows "\<not> frozen (step t c) \<longrightarrow> upstream (step t c) = []"
proof (cases c)
  case (Add key val)
  with assms show ?thesis by (auto simp: TreeSum_add_def split: option.splits)
next
  case (GetUpstream key)
  with assms show ?thesis
    by (cases "frozen t") (auto simp: get_upstream_frozen get_upstream_frozen_miss)
next
  case Items
  then show ?thesis by (simp add: items_def Let_def freeze_frozen)
next
  case Exp
  then show ?thesis by (simp add: freeze_frozen)
next
  case (Prune key)
  with assms show ?thesis by (auto simp: prune_def)
next
  case Copy
  with assms show ?thesis by simp
qed

lemma step_frozen:
  assumes "\<not> frozen t \<longrightarrow> upstream t = []"
  shows "frozen (step t c) \<longleftrightarrow> frozen t \<or> freezes c"
proof (cases c)
  case (Add key val)
  then show ?thesis by (auto simp: TreeSum_add_def split: option.splits)
next
  case (GetUpstream key)
  with assms show ?thesis
    by (cases "frozen t") (auto simp: get_upstream_frozen get_upstream_frozen_miss)
next
  case Items
  then show ?thesis by (simp add: items_def Let_def freeze_frozen)
next
  case Exp
  then show ?thesis by (simp add: freeze_frozen)
next
  case (Prune key)
  then show ?thesis by (auto simp: prune_def)
next
  case Copy
  then show ?thesis by simp
qed

lemma run_invariant:
  "(\<not> frozen (run cs) \<longrightarrow> upstream (run cs) = []) \<and>
   (frozen (run cs) \<longleftrightarrow> (\<exists>c \<in> set cs. freezes c))"
proof (induction cs rule: rev_induct)
  case Nil
  show ?case by (simp add: run_def TreeSum_init_def)
next
  case (snoc c cs)
  then show ?case
    using step_unfrozen_cache[of "run cs" c] step_frozen[of "run cs" c]
    by (auto simp: run_snoc)
qed

lemma coherent_empty_cache: "upstream t = [] \<Longrightarrow> coherent t"
  by (simp add: coherent_def)

lemma prefix_closed_empty_cache: "upstream t = [] \<Longrightarrow> prefix_closed t"
  by (simp add: prefix_closed_def)

lemma coherent_frozen_update: "coherent (t\<lparr>frozen := b\<rparr>) = coherent t"
  by (simp add: coherent_def)

lemma coherent_freeze: "coherent t \<Longrightarrow> coherent (freeze t)"
  using coherent_extends[OF _ freeze_extends] .

lemma step_coherent:
  assumes "\<not> is_prune c" "\<not> frozen t \<longrightarrow> upstream t = []" "coherent t" "prefix_closed t"
  shows "coherent (step t c) \<and> prefix_closed (step t c)"
proof (cases c)
  case (Add key val)
  show ?thesis
  proof (cases "frozen t")
    case True
    with Add assms show ?thesis by (simp add: TreeSum_add_def)
  next
    case False
    with assms have "upstream (step t c) = []"
      using Add by (auto simp: TreeSum_add_def split: option.splits)
    then show ?thesis
      by (simp add: coherent_empty_cache prefix_closed_empty_cache)
  qed
next
  case (GetUpstream key)
  with assms show ?thesis
    by (simp add: coherent_extends[OF _ get_upstream_extends] prefix_closed_get_upstream)
next
  case Items
  with assms show ?thesis
    by (simp add: items_def Let_def coherent_freeze prefix_closed_freeze)
next
  case Exp
  with assms show ?thesis by (simp add: coherent_freeze prefix_closed_freeze)
next
  case (Prune key)
  with assms show ?thesis by simp
next
  case Copy
  with assms show ?thesis by simp
qed

lemma run_coherent:
  "\<forall>c \<in> set cs. \<not> is_prune c \<Longrightarrow> coherent (run cs) \<and> prefix_closed (run cs)"
proof (induction cs rule: rev_induct)
  case Nil
  show ?case
    by (simp add: run_def TreeSum_init_def coherent_empty_cache prefix_closed_empty_cache)
next
  case (snoc c cs)
  then show ?case
    using step_coherent[of c "run cs"] run_invariant[of cs]
    by (simp add: run_snoc)
qed

subsection \<open>Upstream sums\<close>

lemma get_upstream_coherent:
  assumes "coherent t"
  shows "fst (get_upstream t key) = upstream_spec (terms t) key"
  using assms by (simp add: get_upstream_val coherent_val)

text \<open>
  C1 (upstream correctness). \<^verbatim>\<open>get_upstream(k)\<close> returns, for every key \<open>k\<close>, the sum
  of the local terms at \<open>k\<close> and at every proper prefix of \<open>k\<close> (an absent term counting
  as the additive identity) exactly on the instances whose upstream cache is coherent with
  their local terms. That sum is \<^verbatim>\<open>None\<close> exactly when neither \<open>k\<close> nor any prefix of it
  has a local term. Every instance built from \<^verbatim>\<open>TreeSum()\<close> by calls other than \<^verbatim>\<open>prune\<close>
  is coherent.
\<close>

theorem get_upstream_prefix_sum:
  "((\<forall>k. fst (get_upstream t k) = upstream_spec (terms t) k) \<longleftrightarrow> coherent t) \<and>
   (upstream_spec (terms t) key = None \<longleftrightarrow>
      (\<forall>p \<in> set (prefixes key). map_of (terms t) p = None)) \<and>
   ((\<forall>c \<in> set cs. \<not> is_prune c) \<longrightarrow> coherent (run cs))"
proof (intro conjI)
  show "(\<forall>k. fst (get_upstream t k) = upstream_spec (terms t) k) \<longleftrightarrow> coherent t"
  proof
    assume all: "\<forall>k. fst (get_upstream t k) = upstream_spec (terms t) k"
    show "coherent t"
      unfolding coherent_def
    proof (intro allI impI)
      fix k c assume "map_of (upstream t) k = Some c"
      then have "fst (get_upstream t k) = c" by (simp add: get_upstream_hit)
      with all show "c = upstream_spec (terms t) k" by simp
    qed
  next
    assume "coherent t"
    then show "\<forall>k. fst (get_upstream t k) = upstream_spec (terms t) k"
      by (simp add: get_upstream_coherent)
  qed
next
  show "upstream_spec (terms t) key = None \<longleftrightarrow>
        (\<forall>p \<in> set (prefixes key). map_of (terms t) p = None)"
    by (rule upstream_spec_None)
next
  show "(\<forall>c \<in> set cs. \<not> is_prune c) \<longrightarrow> coherent (run cs)"
    by (simp add: run_coherent)
qed

text \<open>
  The specification's example: local terms 2, 3 and 5 at \<open>()\<close>, \<open>(0,)\<close> and \<open>(0, 1)\<close>.
\<close>

theorem get_upstream_prefix_sum_witness:
  "coherent (run [Add [] (2::real), Add [0::nat] 3, Add [0, 1] 5]) \<and>
   fst (get_upstream (run [Add [] (2::real), Add [0::nat] 3, Add [0, 1] 5]) [0, 1]) = Some 10 \<and>
   fst (get_upstream (run [Add [] (2::real), Add [0::nat] 3, Add [0, 1] 5]) [0]) = Some 5 \<and>
   fst (get_upstream (run [Add [] (2::real), Add [0::nat] 3, Add [0, 1] 5]) []) = Some 2 \<and>
   fst (get_upstream (run [Add [0::nat] (3::real)]) [1]) = None"
proof -
  let ?cs = "[Add [] (2::real), Add [0::nat] 3, Add [0, 1] 5]"
  let ?t = "run ?cs"
  have c: "coherent ?t"
    using get_upstream_prefix_sum[of ?t "[]" ?cs] by simp
  then have g: "fst (get_upstream ?t k) = upstream_spec (terms ?t) k" for k
    using get_upstream_prefix_sum[of ?t "[]" ?cs] by blast
  have ts: "terms ?t = [([], 2), ([0], 3), ([0, 1], 5)]"
    by (simp add: run_def TreeSum_init_def TreeSum_add_def)
  have r1: "fst (get_upstream ?t [0, 1]) = Some 10"
    unfolding g ts by (simp add: upstream_spec_def)
  have r2: "fst (get_upstream ?t [0]) = Some 5"
    unfolding g ts by (simp add: upstream_spec_def)
  have r3: "fst (get_upstream ?t []) = Some 2"
    unfolding g ts by (simp add: upstream_spec_def)
  let ?cs' = "[Add [0::nat] (3::real)]"
  have c': "coherent (run ?cs')"
    using get_upstream_prefix_sum[of "run ?cs'" "[]" ?cs'] by simp
  then have g': "fst (get_upstream (run ?cs') k) = upstream_spec (terms (run ?cs')) k" for k
    using get_upstream_prefix_sum[of "run ?cs'" "[]" ?cs'] by blast
  have ts': "terms (run ?cs') = [([0], 3)]"
    by (simp add: run_def TreeSum_init_def TreeSum_add_def)
  have "upstream_spec (terms (run ?cs')) [1] = None"
    using get_upstream_prefix_sum[of "run ?cs'" "[1]" ?cs'] unfolding ts' by simp
  then have r4: "fst (get_upstream (run ?cs') [1]) = None"
    unfolding g' .
  show ?thesis using c r1 r2 r3 r4 by blast
qed

text \<open>
  Without coherence the statement fails: \<^verbatim>\<open>prune\<close> removes the root's term, the entry
  cached for \<open>(0,)\<close> still contains it, and \<^verbatim>\<open>get_upstream((0,))\<close> answers 5 while the
  local terms left on the path sum to 3.
\<close>

theorem get_upstream_stale_counterexample:
  "fst (get_upstream (run [Add [] (2::real), Add [0::nat] 3, GetUpstream [0], Prune []]) [0]) = Some 5 \<and>
   upstream_spec (terms (run [Add [] (2::real), Add [0::nat] 3, GetUpstream [0], Prune []])) [0] = Some 3"
  by (simp add: run_def TreeSum_init_def TreeSum_add_def prune_def upstream_spec_def
      get_upstream.simps Let_def)


subsection \<open>Freezing\<close>

text \<open>
  C2 (freeze enforcement). For an instance created by \<^verbatim>\<open>TreeSum()\<close> and any history of
  calls on it: as long as the history contains no \<^verbatim>\<open>get_upstream\<close>, \<^verbatim>\<open>items\<close> or \<^verbatim>\<open>exp\<close>,
  \<^verbatim>\<open>add(key, value)\<close> succeeds and merges the value into the local term at the key; once the
  history contains such a call, on whatever key, \<^verbatim>\<open>add\<close> raises and the instance is left
  as it was.
\<close>

theorem freeze_enforcement:
  "((\<forall>c \<in> set cs. \<not> freezes c) \<longrightarrow>
      (\<exists>t'. TreeSum_add (run cs) key val = Inr t' \<and>
            map_of (terms t') key =
              Some (case map_of (terms (run cs)) key of None \<Rightarrow> val | Some old \<Rightarrow> old + val))) \<and>
   ((\<exists>c \<in> set cs. freezes c) \<longrightarrow>
      TreeSum_add (run cs) key val = Inl AssertionError \<and>
      run (cs @ [Add key val]) = run cs)"
  using run_invariant[of cs]
  by (auto simp: TreeSum_add_def run_snoc update_conv' split: option.splits)

theorem freeze_enforcement_witness:
  "(\<exists>t'. TreeSum_add (run [Add [0::nat] (1::real), Prune [0], Copy]) [0] 2 = Inr t' \<and>
         map_of (terms t') [0] = Some 3) \<and>
   TreeSum_add (run [Add [0::nat] (1::real), GetUpstream [5]]) [0] 2 = Inl AssertionError \<and>
   TreeSum_add (run [Add [0::nat] (1::real), Items]) [0] 2 = Inl AssertionError \<and>
   TreeSum_add (run [Add [0::nat] (1::real), Exp, Add [1] 1]) [0] 2 = Inl AssertionError"
proof -
  have ts: "terms (run [Add [0::nat] (1::real), Prune [0], Copy]) = [([0], 1)]"
    by (simp add: run_def TreeSum_init_def TreeSum_add_def prune_def)
  show ?thesis
    using freeze_enforcement[of "[Add [0::nat] (1::real), Prune [0], Copy]" "[0]" 2]
      freeze_enforcement[of "[Add [0::nat] (1::real), GetUpstream [5]]" "[0]" 2]
      freeze_enforcement[of "[Add [0::nat] (1::real), Items]" "[0]" 2]
      freeze_enforcement[of "[Add [0::nat] (1::real), Exp, Add [1] 1]" "[0]" 2]
    by (simp add: ts)
qed

lemma map_of_None_iff: "map_of al k = None \<longleftrightarrow> k \<notin> fst ` set al"
  by (simp add: map_of_eq_None_iff)

subsection \<open>Pruning\<close>

text \<open>
  C9 (prune idempotence). On a frozen TreeSum, \<^verbatim>\<open>prune(key)\<close> of a key in neither
  dictionary changes nothing and does not raise; in general it succeeds and leaves the key
  in neither dictionary; when every key with a local term had a cached upstream entry
  (as after \<^verbatim>\<open>items()\<close> or \<^verbatim>\<open>exp()\<close>), the key is absent from the following \<^verbatim>\<open>items()\<close>; and
  pruning the key a second time changes nothing.
\<close>

theorem prune_idempotent:
  assumes "frozen t"
  shows "(key \<notin> fst ` set (terms t) \<and> key \<notin> fst ` set (upstream t) \<longrightarrow> prune t key = Inr t) \<and>
         (\<exists>t'. prune t key = Inr t' \<and>
               key \<notin> fst ` set (terms t') \<and> key \<notin> fst ` set (upstream t') \<and>
               ((\<forall>k \<in> fst ` set (terms t). k \<in> fst ` set (upstream t)) \<longrightarrow>
                  key \<notin> fst ` set (fst (items t'))) \<and>
               prune t' key = Inr t')"
proof -
  let ?t' = "t\<lparr>upstream := AList.delete key (upstream t), terms := AList.delete key (terms t)\<rparr>"
  have p: "prune t key = Inr ?t'" using assms by (simp add: prune_def)
  have a: "key \<notin> fst ` set (terms ?t')" "key \<notin> fst ` set (upstream ?t')"
    by (simp_all add: delete_notin_dom)
  have i: "key \<notin> fst ` set (fst (items ?t'))"
    if all: "\<forall>k \<in> fst ` set (terms t). k \<in> fst ` set (upstream t)"
  proof -
    have "\<forall>k \<in> fst ` set (terms ?t'). map_of (upstream ?t') k \<noteq> None"
    proof
      fix k assume k: "k \<in> fst ` set (terms ?t')"
      then have "k \<noteq> key" using a(1) by auto
      moreover from k have "k \<in> fst ` set (terms t)"
        using dom_delete_subset[of key "terms t"] by auto
      ultimately show "map_of (upstream ?t') k \<noteq> None"
        using all by (auto simp: map_of_None_iff)
    qed
    then have "upstream (freeze ?t') = upstream ?t'" by (rule freeze_hits)
    then show ?thesis using a(2) by (simp add: items_def Let_def)
  qed
  have twice: "prune ?t' key = Inr ?t'"
    using assms by (simp add: prune_def delete_idem)
  have absent: "prune t key = Inr t"
    if "key \<notin> fst ` set (terms t) \<and> key \<notin> fst ` set (upstream t)"
    using that assms by (simp add: prune_def)
  show ?thesis using p a i twice absent by auto
qed

theorem prune_idempotent_witness:
  "frozen (run [Add [] (2::real), Add [0::nat] 3, Items]) \<and>
   prune (run [Add [] (2::real), Add [0::nat] 3, Items]) [7] =
     Inr (run [Add [] (2::real), Add [0::nat] 3, Items]) \<and>
   (\<exists>t'. prune (run [Add [] (2::real), Add [0::nat] 3, Items]) [] = Inr t' \<and>
         [] \<notin> fst ` set (fst (items t')) \<and> prune t' [] = Inr t')"
proof -
  let ?t = "run [Add [] (2::real), Add [0::nat] 3, Items]"
  have f: "frozen ?t" using run_invariant[of "[Add [] (2::real), Add [0::nat] 3, Items]"] by simp
  have t: "terms ?t = [([], 2), ([0], 3)]"
    by (simp add: run_snoc[of "[Add [] (2::real), Add [0::nat] 3]" Items, simplified]
        items_def Let_def freeze_terms)
       (simp add: run_def TreeSum_init_def TreeSum_add_def)
  have u: "upstream ?t = [([], Some 2), ([0], Some 5)]"
    by (simp add: run_def TreeSum_init_def TreeSum_add_def items_def freeze_def
        get_upstream.simps Let_def)
  show ?thesis
    using f prune_idempotent[OF f, of "[7]"] prune_idempotent[OF f, of "[]"]
    by (auto simp: t u)
qed

text \<open>
  Frozen by a single \<^verbatim>\<open>get_upstream(())\<close>, the key \<open>(0,)\<close> is not yet cached. After
  \<^verbatim>\<open>prune(())\<close> the next \<^verbatim>\<open>items()\<close> computes the entry of \<open>(0,)\<close>, recurses on its parent
  and caches \<open>()\<close> again: the pruned key is back in the output.
\<close>

theorem prune_reappears_counterexample:
  "frozen (run [Add [] (2::real), Add [0::nat] 3, GetUpstream []]) \<and>
   [] \<in> fst ` set (terms (run [Add [] (2::real), Add [0::nat] 3, GetUpstream []])) \<and>
   [] \<in> fst ` set (upstream (run [Add [] (2::real), Add [0::nat] 3, GetUpstream []])) \<and>
   [] \<in> fst ` set (fst (items (run [Add [] (2::real), Add [0::nat] 3, GetUpstream [], Prune []])))"
  by (simp add: run_def TreeSum_init_def TreeSum_add_def prune_def items_def freeze_def
      get_upstream.simps Let_def)


subsection \<open>The entries of items\<close>

lemma items_coherent:
  assumes "coherent t" "prefix_closed t" "k \<in> fst ` set (terms t)" "p \<in> set (prefixes k)"
  shows "map_of (fst (items t)) p = Some (upstream_spec (terms t) p) \<and>
         ((\<forall>q \<in> set (prefixes p). map_of (terms t) q = None) \<longrightarrow>
            map_of (fst (items t)) p = Some None)"
proof -
  have i: "fst (items t) = upstream (freeze t)" by (simp add: items_def Let_def)
  have kc: "map_of (upstream (freeze t)) k \<noteq> None" using assms(3) by (rule freeze_cached)
  from assms(4) obtain q where "k = p @ q" by (auto simp: in_set_prefixes prefix_def)
  with kc prefix_closed_prefix[OF prefix_closed_freeze[OF assms(2)], of p q]
  obtain c where c: "map_of (upstream (freeze t)) p = Some c" by auto
  have "coherent (freeze t)" using assms(1) by (rule coherent_freeze)
  with c have "c = upstream_spec (terms t) p" by (simp add: coherent_def freeze_terms)
  with c i show ?thesis by (simp add: upstream_spec_None)
qed

text \<open>
  C10 (ancestor entries). On every instance built from \<^verbatim>\<open>TreeSum()\<close> by calls other than
  \<^verbatim>\<open>prune\<close>, the mapping returned by \<^verbatim>\<open>items()\<close> has an entry for every key with a local
  term and for every prefix of such a key; the entry is the upstream sum, and it is
  \<^verbatim>\<open>None\<close> for a prefix with no local term anywhere on its path.
\<close>

theorem items_prefix_entries:
  assumes "\<forall>c \<in> set cs. \<not> is_prune c"
    and "k \<in> fst ` set (terms (run cs))" and "p \<in> set (prefixes k)"
  shows "map_of (fst (items (run cs))) p = Some (upstream_spec (terms (run cs)) p) \<and>
         ((\<forall>q \<in> set (prefixes p). map_of (terms (run cs)) q = None) \<longrightarrow>
            map_of (fst (items (run cs))) p = Some None)"
  using run_coherent[OF assms(1)] assms(2,3) by (intro items_coherent) simp_all

theorem items_prefix_entries_witness:
  "[0, 1] \<in> fst ` set (terms (run [Add [0::nat, 1] (3::real)])) \<and>
   map_of (fst (items (run [Add [0::nat, 1] (3::real)]))) [0, 1] = Some (Some 3) \<and>
   map_of (fst (items (run [Add [0::nat, 1] (3::real)]))) [0] = Some None \<and>
   map_of (fst (items (run [Add [0::nat, 1] (3::real)]))) [] = Some None"
proof -
  let ?cs = "[Add [0::nat, 1] (3::real)]"
  let ?t = "run ?cs"
  have np: "\<forall>c \<in> set ?cs. \<not> is_prune c" by simp
  have ts: "terms ?t = [([0, 1], 3)]"
    by (simp add: run_def TreeSum_init_def TreeSum_add_def)
  have k: "[0, 1] \<in> fst ` set (terms ?t)" unfolding ts by simp
  have "map_of (fst (items ?t)) [0, 1] = Some (upstream_spec (terms ?t) [0, 1])"
    using items_prefix_entries[OF np k, of "[0, 1]"] by simp
  then have r1: "map_of (fst (items ?t)) [0, 1] = Some (Some 3)"
    unfolding ts by (simp add: upstream_spec_def)
  have "map_of (fst (items ?t)) [0] = Some (upstream_spec (terms ?t) [0])"
    using items_prefix_entries[OF np k, of "[0]"] by simp
  then have r2: "map_of (fst (items ?t)) [0] = Some None"
    unfolding ts by (simp add: upstream_spec_def)
  have "map_of (fst (items ?t)) [] = Some (upstream_spec (terms ?t) [])"
    using items_prefix_entries[OF np k, of "[]"] by simp
  then have r3: "map_of (fst (items ?t)) [] = Some None"
    unfolding ts by (simp add: upstream_spec_def)
  show ?thesis using k r1 r2 r3 by blast
qed

text \<open>
  After \<^verbatim>\<open>prune(())\<close> the key \<open>(0,)\<close> is still cached, so \<^verbatim>\<open>items()\<close> does not recurse and
  returns no entry for its prefix \<open>()\<close>.
\<close>

theorem items_after_prune_counterexample:
  "[0] \<in> fst ` set (terms (run [Add [0::nat] (3::real), Items, Prune []])) \<and>
   [] \<in> set (prefixes [0::nat]) \<and>
   map_of (fst (items (run [Add [0::nat] (3::real), Items, Prune []]))) [] = None"
  by (simp add: run_def TreeSum_init_def TreeSum_add_def prune_def items_def freeze_def
      get_upstream.simps Let_def)







lemma TreeSum_exp_receiver: "snd (TreeSum_exp ex t) = freeze t"
  by (simp add: TreeSum_exp_def Let_def split: sum.splits)

lemma items_receiver: "snd (items t) = freeze t"
  by (simp add: items_def Let_def)






subsection \<open>Exponentiation\<close>



section \<open>Properties of the reduction helpers\<close>

declare sum_leading.simps [simp del]

lemma in_indices_Cons:
  "i # idx \<in> set (indices (n # ns)) \<longleftrightarrow> i < n \<and> idx \<in> set (indices ns)"
  by auto

lemma Nil_in_indices_Cons: "[] \<notin> set (indices (n # ns))"
  by auto

lemma in_indices: "idx \<in> set (indices s) \<longleftrightarrow> list_all2 (<) idx s"
proof (induction s arbitrary: idx)
  case Nil
  show ?case by auto
next
  case (Cons n ns)
  show ?case
    by (cases idx) (simp_all add: in_indices_Cons Nil_in_indices_Cons Cons.IH del: indices.simps)
qed

lemma indices_product_lists: "indices s = product_lists (map (\<lambda>n. [0..<n]) s)"
  by (induction s) simp_all

lemma distinct_indices: "distinct (indices s)"
  unfolding indices_product_lists by (rule distinct_product_lists) auto

lemma length_indices: "length (indices s) = prod_list s"
  by (induction s) (simp_all add: length_concat comp_def sum_list_triv)

lemma in_indices_length: "idx \<in> set (indices s) \<Longrightarrow> length idx = length s"
  by (simp add: in_indices list_all2_lengthD)

lemma element_tabulate:
  "idx \<in> set (indices s) \<Longrightarrow> element (tabulate s f) idx = f idx"
  by (simp add: element_def tabulate_def map_of_zip_map)

lemma shape_tabulate [simp]: "shape (tabulate s f) = s"
  by (simp add: tabulate_def)

lemma tabulate_cong:
  "(\<And>idx. idx \<in> set (indices s) \<Longrightarrow> f idx = g idx) \<Longrightarrow> tabulate s f = tabulate s g"
  by (simp add: tabulate_def)

lemma well_shaped_tabulate: "well_shaped (tabulate s f)"
  by (simp add: well_shaped_def tabulate_def length_indices)

lemma element_indices:
  assumes "well_shaped t"
  shows "map (element t) (indices (shape t)) = data t"
proof (rule nth_equalityI)
  show "length (map (element t) (indices (shape t))) = length (data t)"
    using assms by (simp add: well_shaped_def length_indices)
next
  fix i assume "i < length (map (element t) (indices (shape t)))"
  then have i: "i < length (data t)" "i < length (indices (shape t))"
    using assms by (simp_all add: well_shaped_def length_indices)
  have "map_of (zip (indices (shape t)) (data t)) (indices (shape t) ! i) = Some (data t ! i)"
    using assms i distinct_indices
    by (intro map_of_zip_nth) (simp_all add: well_shaped_def length_indices)
  with i show "map (element t) (indices (shape t)) ! i = data t ! i"
    by (simp add: element_def)
qed

lemma tabulate_element: "well_shaped t \<Longrightarrow> tabulate (shape t) (element t) = t"
  using element_indices[of t] by (cases t) (simp add: tabulate_def)

lemma scale_tabulate: "scale c (tabulate s f) = tabulate s (\<lambda>idx. c * f idx)"
  by (simp add: scale_def tabulate_def)

lemma shape_scale [simp]: "shape (scale c t) = shape t"
  by (simp add: scale_def)

lemma shape_expand [simp]: "shape (expand t s') = s'"
  by (simp add: expand_def)

lemma source_index_Cons:
  "length s \<le> length idx \<Longrightarrow> source_index s (i # idx) = source_index s idx"
  by (simp add: source_index_def Suc_diff_le)

lemma sum0_scale_expand:
  assumes "dim t \<le> length s'"
  shows "sum0 (scale c (expand t (n # s'))) = scale (c * real n) (expand t s')"
proof -
  have "sum0 (scale c (expand t (n # s'))) =
        tabulate s' (\<lambda>idx. \<Sum>i\<leftarrow>[0..<n].
          element (tabulate (n # s') (\<lambda>idx. c * element t (source_index (shape t) idx))) (i # idx))"
    by (simp add: sum0_def expand_def scale_tabulate)
  also have "\<dots> = tabulate s' (\<lambda>idx. (c * real n) * element t (source_index (shape t) idx))"
  proof (rule tabulate_cong)
    fix idx assume idx: "idx \<in> set (indices s')"
    then have len: "length (shape t) \<le> length idx"
      using assms by (simp add: in_indices_length dim_def)
    have "element (tabulate (n # s') (\<lambda>idx. c * element t (source_index (shape t) idx))) (i # idx)
          = c * element t (source_index (shape t) idx)" if "i \<in> set [0..<n]" for i
    proof -
      have "i # idx \<in> set (indices (n # s'))"
        using that idx by (simp add: in_indices_Cons del: indices.simps)
      then show ?thesis by (simp add: element_tabulate source_index_Cons[OF len])
    qed
    then have "(\<Sum>i\<leftarrow>[0..<n].
          element (tabulate (n # s') (\<lambda>idx. c * element t (source_index (shape t) idx))) (i # idx))
        = (\<Sum>i\<leftarrow>[0..<n]. c * element t (source_index (shape t) idx))"
      by (intro arg_cong[of _ _ sum_list] map_cong) simp_all
    also have "\<dots> = (c * real n) * element t (source_index (shape t) idx)"
      by (simp add: sum_list_triv)
    finally show "(\<Sum>i\<leftarrow>[0..<n].
          element (tabulate (n # s') (\<lambda>idx. c * element t (source_index (shape t) idx))) (i # idx))
        = (c * real n) * element t (source_index (shape t) idx)" .
  qed
  also have "\<dots> = scale (c * real n) (expand t s')"
    by (simp add: expand_def scale_tabulate)
  finally show ?thesis .
qed


lemma scale_one [simp]: "scale 1 t = t"
  by (cases t) (auto simp: scale_def intro: map_idI)

lemma scale_scale: "scale a (scale b t) = scale (a * b) t"
  by (simp add: scale_def comp_def mult.assoc)

lemma dim_scale_expand [simp]: "dim (scale c (expand t s')) = length s'"
  by (simp add: dim_def)

lemma sum_leading_expand:
  assumes "dim t \<le> n" "n \<le> length s'"
  shows "sum_leading (scale c (expand t s')) n =
         scale (c * real (prod_list (take (length s' - n) s')))
           (expand t (drop (length s' - n) s'))"
  using assms
proof (induction s' arbitrary: c)
  case Nil
  then show ?case by (simp add: sum_leading.simps)
next
  case (Cons u U)
  show ?case
  proof (cases "n \<le> length U")
    case True
    then have d: "dim t \<le> length U" using Cons.prems by simp
    have "sum_leading (scale c (expand t (u # U))) n =
          sum_leading (scale (c * real u) (expand t U)) n"
      using True by (subst sum_leading.simps) (simp add: sum0_scale_expand[OF d])
    also have "\<dots> = scale (c * real u * real (prod_list (take (length U - n) U)))
           (expand t (drop (length U - n) U))"
      using Cons.IH[OF Cons.prems(1) True] .
    finally show ?thesis using True by (simp add: Suc_diff_le mult.assoc)
  next
    case False
    with Cons.prems have "n = length (u # U)" by simp
    then show ?thesis by (subst sum_leading.simps) simp
  qed
qed

lemma length_source_index:
  "length s \<le> length idx \<Longrightarrow> length (source_index s idx) = length s"
  by (simp add: source_index_def)

lemma nth_source_index:
  "length s \<le> length idx \<Longrightarrow> k < length s \<Longrightarrow>
   source_index s idx ! k = (if s ! k = 1 then 0 else idx ! (length idx - length s + k))"
  by (simp add: source_index_def)

lemma source_index_update:
  assumes "length idx = j + length s" "d < length idx" "(replicate j 1 @ s) ! d = 1"
  shows "source_index s (idx[d := i]) = source_index s idx"
proof (rule nth_equalityI)
  show "length (source_index s (idx[d := i])) = length (source_index s idx)"
    using assms by (simp add: length_source_index)
next
  fix k assume "k < length (source_index s (idx[d := i]))"
  then have k: "k < length s" using assms by (simp add: length_source_index)
  have e: "length idx - length s + k = j + k" using assms by simp
  show "source_index s (idx[d := i]) ! k = source_index s idx ! k"
  proof (cases "d = j + k")
    case True
    with assms(3) k have "s ! k = 1" by (simp add: nth_append)
    with k assms show ?thesis by (simp add: nth_source_index)
  next
    case False
    with k assms e show ?thesis by (simp add: nth_source_index)
  qed
qed

lemma in_indices_update:
  assumes "idx \<in> set (indices (us[d := 1]))" "d < length us" "i < us ! d"
  shows "idx[d := i] \<in> set (indices us)"
  using assms
  by (auto simp: in_indices list_all2_conv_all_nth nth_list_update)

lemma sum_keepdim_scale_expand:
  assumes d: "d < length us"
    and ign: "\<And>idx i. length idx = length us \<Longrightarrow>
                source_index (shape t) (idx[d := i]) = source_index (shape t) idx"
  shows "sum_keepdim (scale c (expand t us)) (length us - d) =
         scale (c * real (us ! d)) (expand t (us[d := 1]))"
proof -
  let ?g = "\<lambda>idx. c * element t (source_index (shape t) idx)"
  have dd: "length us - (length us - d) = d" using d by simp
  have "sum_keepdim (scale c (expand t us)) (length us - d) =
        tabulate (us[d := 1]) (\<lambda>idx. \<Sum>i\<leftarrow>[0..<us ! d]. element (tabulate us ?g) (idx[d := i]))"
    by (simp add: sum_keepdim_def expand_def scale_tabulate dim_def dd)
  also have "\<dots> = tabulate (us[d := 1]) (\<lambda>idx. (c * real (us ! d)) * element t (source_index (shape t) idx))"
  proof (rule tabulate_cong)
    fix idx assume idx: "idx \<in> set (indices (us[d := 1]))"
    then have len: "length idx = length us" by (simp add: in_indices_length)
    have "element (tabulate us ?g) (idx[d := i]) = ?g idx" if "i \<in> set [0..<us ! d]" for i
      using in_indices_update[OF idx d, of i] that ign[OF len, of i]
      by (simp add: element_tabulate)
    then have "(\<Sum>i\<leftarrow>[0..<us ! d]. element (tabulate us ?g) (idx[d := i])) =
               (\<Sum>i\<leftarrow>[0..<us ! d]. ?g idx)"
      by (intro arg_cong[of _ _ sum_list] map_cong) simp_all
    also have "\<dots> = (c * real (us ! d)) * element t (source_index (shape t) idx)"
      by (simp add: sum_list_triv)
    finally show "(\<Sum>i\<leftarrow>[0..<us ! d]. element (tabulate us ?g) (idx[d := i])) =
                  (c * real (us ! d)) * element t (source_index (shape t) idx)" .
  qed
  also have "\<dots> = scale (c * real (us ! d)) (expand t (us[d := 1]))"
    by (simp add: expand_def scale_tabulate)
  finally show ?thesis .
qed

lemma broadcast_gain_Cons:
  "broadcast_gain (p # ps) (u # us) = (if p < u then u else 1) * broadcast_gain ps us"
  by (simp add: broadcast_gain_def)

lemma broadcast_gain_prod:
  "list_all2 broadcasts_to ps us \<Longrightarrow> broadcast_gain ps us * prod_list ps = prod_list us"
  by (induction rule: list_all2_induct)
     (auto simp: broadcast_gain_Cons broadcasts_to_def broadcast_gain_def)


lemma expand_padded:
  assumes "well_shaped t"
  shows "expand t (replicate j 1 @ shape t) = Tensor (replicate j 1 @ shape t) (data t)"
proof -
  let ?s = "shape t"
  have ind: "indices (replicate j 1 @ ?s) = map ((@) (replicate j 0)) (indices ?s)"
    by (induction j) (simp_all add: comp_def)
  have src: "source_index ?s (replicate j 0 @ idx) = idx" if "idx \<in> set (indices ?s)" for idx
  proof (rule nth_equalityI)
    from that have len: "length idx = length ?s" by (rule in_indices_length)
    then show "length (source_index ?s (replicate j 0 @ idx)) = length idx"
      by (simp add: length_source_index)
    fix k assume "k < length (source_index ?s (replicate j 0 @ idx))"
    then have k: "k < length ?s" using len by (simp add: length_source_index)
    from that k have "idx ! k < ?s ! k"
      by (simp add: in_indices list_all2_conv_all_nth)
    with k len show "source_index ?s (replicate j 0 @ idx) ! k = idx ! k"
      by (auto simp: nth_source_index nth_append)
  qed
  have "map (\<lambda>idx. element t (source_index ?s idx)) (indices (replicate j 1 @ ?s)) =
        map (element t) (indices ?s)"
    unfolding ind by (simp add: comp_def src cong: map_cong)
  then show ?thesis
    using element_indices[OF assms] by (simp add: expand_def tabulate_def)
qed

lemma fold_reduce_axes:
  assumes len: "length us = length ps"
    and ok: "list_all2 broadcasts_to ps us"
    and ps: "ps = replicate j 1 @ shape t"
    and q: "q \<le> length ps"
  shows "fold (\<lambda>k source. if size_neg source k > ps ! (length ps - k)
                          then sum_keepdim source k else source)
           [1..<1 + q] (scale c (expand t us)) =
         scale (c * real (broadcast_gain (drop (length ps - q) ps) (drop (length ps - q) us)))
           (expand t (take (length ps - q) us @ drop (length ps - q) ps))"
  using q
proof (induction q)
  case 0
  then show ?case using len by (simp add: broadcast_gain_def)
next
  case (Suc q)
  let ?r = "length ps"
  let ?f = "\<lambda>k source. if size_neg source k > ps ! (?r - k)
                          then sum_keepdim source k else source"
  let ?d = "?r - Suc q"
  let ?uq = "take (?r - q) us @ drop (?r - q) ps"
  let ?cq = "c * real (broadcast_gain (drop (?r - q) ps) (drop (?r - q) us))"
  from Suc.prems have d: "?d < ?r" "Suc ?d = ?r - q" by simp_all
  have luq: "length ?uq = ?r" using len by simp
  have uqd: "?uq ! ?d = us ! ?d" using d len by (simp add: nth_append)
  have dp: "drop ?d ps = ps ! ?d # drop (?r - q) ps"
    using d by (metis Cons_nth_drop_Suc)
  have du: "drop ?d us = us ! ?d # drop (?r - q) us"
    using d len by (metis Cons_nth_drop_Suc)
  have tu: "take (?r - q) us = take ?d us @ [us ! ?d]"
    using d len by (metis take_Suc_conv_app_nth)
  have okd: "broadcasts_to (ps ! ?d) (us ! ?d)"
    using ok d by (simp add: list_all2_conv_all_nth)
  have "fold ?f [1..<1 + Suc q] (scale c (expand t us)) =
        ?f (Suc q) (fold ?f [1..<1 + q] (scale c (expand t us)))"
    by simp
  also have "\<dots> = ?f (Suc q) (scale ?cq (expand t ?uq))"
    using Suc.IH Suc.prems by simp
  also have "\<dots> = scale (c * real (broadcast_gain (drop ?d ps) (drop ?d us)))
                     (expand t (take ?d us @ drop ?d ps))"
  proof (cases "ps ! ?d < us ! ?d")
    case True
    with okd have p1: "ps ! ?d = 1" by (auto simp: broadcasts_to_def)
    have sz: "size_neg (scale ?cq (expand t ?uq)) (Suc q) = us ! ?d"
      using uqd luq by (simp add: size_neg_def dim_def)
    have ign: "source_index (shape t) (idx[?d := i]) = source_index (shape t) idx"
      if "length idx = ?r" for idx i
    proof (rule source_index_update[where j = j])
      show "length idx = j + length (shape t)" using that ps by simp
      show "?d < length idx" using that d(1) by (simp only:)
      show "(replicate j 1 @ shape t) ! ?d = 1" using p1 ps by simp
    qed
    have "sum_keepdim (scale ?cq (expand t ?uq)) (length ?uq - ?d) =
          scale (?cq * real (?uq ! ?d)) (expand t (?uq[?d := 1]))"
    proof (rule sum_keepdim_scale_expand)
      show "?d < length ?uq" using d(1) by (simp only: luq)
    next
      fix idx :: "nat list" and i
      assume "length idx = length ?uq"
      then have "length idx = ?r" by (simp only: luq)
      then show "source_index (shape t) (idx[?d := i]) = source_index (shape t) idx"
        by (rule ign)
    qed
    moreover have "length ?uq - ?d = Suc q" using luq Suc.prems by simp
    moreover have "?uq[?d := 1] = take ?d us @ drop ?d ps"
      using d len p1 by (simp add: tu dp list_update_append)
    moreover have "?cq * real (?uq ! ?d) =
        c * real (broadcast_gain (drop ?d ps) (drop ?d us))"
      using True by (simp add: dp du broadcast_gain_Cons uqd)
    ultimately show ?thesis using True sz by simp
  next
    case False
    with okd have eq: "ps ! ?d = us ! ?d" by (auto simp: broadcasts_to_def)
    have sz: "size_neg (scale ?cq (expand t ?uq)) (Suc q) = us ! ?d"
      using uqd luq by (simp add: size_neg_def dim_def)
    have a: "?uq = take ?d us @ drop ?d ps" by (simp add: tu dp eq)
    have b: "?cq = c * real (broadcast_gain (drop ?d ps) (drop ?d us))"
      using False by (simp add: dp du broadcast_gain_Cons)
    have "?f (Suc q) (scale ?cq (expand t ?uq)) = scale ?cq (expand t ?uq)"
      using False sz by simp
    also have "\<dots> = scale (c * real (broadcast_gain (drop ?d ps) (drop ?d us)))
                     (expand t (take ?d us @ drop ?d ps))"
      by (simp only: a b)
    finally show ?thesis .
  qed
  finally show ?case .
qed


lemma reduce_to_target_shape:
  "reduce_to_target source target = reduce_to_shape source (shape target)"
  by (simp add: reduce_to_target_def reduce_to_shape_def size_neg_def dim_def)

lemma broadcasts_to_padded:
  assumes ex: "expandable s s'" and nz: "0 \<notin> set s'" and j: "j + length s \<le> length s'"
  shows "list_all2 broadcasts_to (replicate j 1 @ s) (drop (length s' - (j + length s)) s')"
proof -
  let ?us = "drop (length s' - (j + length s)) s'"
  have lu: "length ?us = j + length s" using j by simp
  have dj: "drop j ?us = drop (length s' - length s) s'"
    using j by (simp add: add.commute)
  have pos: "0 < u" if "u \<in> set ?us" for u
  proof -
    from that have "u \<in> set s'" by (rule in_set_dropD)
    with nz show ?thesis by (cases u) auto
  qed
  have "list_all2 broadcasts_to (replicate j 1) (take j ?us)"
  proof (rule list_all2_all_nthI)
    show "length (replicate j (1::nat)) = length (take j ?us)" using lu by simp
  next
    fix k assume "k < length (replicate j (1::nat))"
    then have k: "k < j" by simp
    then have "?us ! k \<in> set ?us" using lu by (intro nth_mem) simp
    from pos[OF this] k show "broadcasts_to (replicate j 1 ! k) (take j ?us ! k)"
      by (auto simp: broadcasts_to_def)
  qed
  moreover have "list_all2 broadcasts_to s (drop j ?us)"
  proof (rule list_all2_all_nthI)
    show "length s = length (drop j ?us)" using lu by simp
  next
    fix k assume k: "k < length s"
    then have "drop j ?us ! k \<in> set (drop j ?us)" using lu by (intro nth_mem) simp
    then have "drop j ?us ! k \<in> set ?us" by (rule in_set_dropD)
    from pos[OF this] have p: "0 < drop j ?us ! k" .
    from ex have "list_all2 (\<lambda>n n'. n = n' \<or> n = 1) s (drop j ?us)"
      unfolding dj by (simp add: expandable_def)
    from list_all2_nthD[OF this k] have "s ! k = drop j ?us ! k \<or> s ! k = 1" .
    with p show "broadcasts_to (s ! k) (drop j ?us ! k)"
      by (auto simp: broadcasts_to_def)
  qed
  ultimately have "list_all2 broadcasts_to (replicate j 1 @ s) (take j ?us @ drop j ?us)"
    by (rule list_all2_appendI)
  then show ?thesis by (simp only: append_take_drop_id)
qed

lemma reduce_to_shape_expand:
  assumes wf: "well_shaped t" and ex: "expandable (shape t) s'"
    and nz: "0 \<notin> set s'" and j: "j + dim t \<le> length s'"
  shows "reduce_to_shape (expand t s') (replicate j 1 @ shape t) =
         Tensor (replicate j 1 @ shape t)
           (map ((*) (real (prod_list s' div prod_list (shape t)))) (data t))"
proof -
  let ?s = "shape t"
  let ?ps = "replicate j 1 @ ?s"
  let ?r = "j + length ?s"
  let ?us = "drop (length s' - ?r) s'"
  let ?lead = "prod_list (take (length s' - ?r) s')"
  let ?f = "\<lambda>k source. if size_neg source k > ?ps ! (length ?ps - k)
                          then sum_keepdim source k else source"
  have r: "?r \<le> length s'" using j by (simp add: dim_def)
  have lu: "length ?us = length ?ps" using r by simp
  have ok: "list_all2 broadcasts_to ?ps ?us"
    using ex nz r by (rule broadcasts_to_padded)
  have lead: "sum_leading (expand t s') (length ?ps) = scale (real ?lead) (expand t ?us)"
    using sum_leading_expand[of t ?r s' 1] r by (simp add: dim_def)
  have "reduce_to_shape (expand t s') ?ps =
        fold ?f [1..<1 + length ?ps] (scale (real ?lead) (expand t ?us))"
    by (simp only: reduce_to_shape_def Let_def lead dim_scale_expand lu)
  also have "\<dots> = scale (real ?lead * real (broadcast_gain ?ps ?us)) (expand t ?ps)"
    using fold_reduce_axes[OF lu ok refl, of "length ?ps" "real ?lead"] by simp
  also have "\<dots> = Tensor ?ps (map ((*) (real ?lead * real (broadcast_gain ?ps ?us))) (data t))"
    by (simp only: expand_padded[OF wf] scale_def tensor.sel)
  finally have red: "reduce_to_shape (expand t s') ?ps =
      Tensor ?ps (map ((*) (real (?lead * broadcast_gain ?ps ?us))) (data t))"
    by simp
  have "prod_list s' = ?lead * prod_list ?us"
    by (metis append_take_drop_id prod_list.append)
  also have "prod_list ?us = broadcast_gain ?ps ?us * prod_list ?ps"
    using broadcast_gain_prod[OF ok] by simp
  finally have p: "prod_list s' = (?lead * broadcast_gain ?ps ?us) * prod_list ?s"
    by (simp add: mult.assoc)
  have "0 < prod_list s'" using nz by (induction s') auto
  with p have "0 < prod_list ?s" by (cases "prod_list ?s") auto
  with p have "prod_list s' div prod_list ?s = ?lead * broadcast_gain ?ps ?us" by simp
  with red show ?thesis by simp
qed

subsection \<open>The range of \<^verbatim>\<open>math.exp\<close>\<close>

text \<open>
  The exponential of 709 is a float and the exponential of 710 is not: \<open>exp 1\<close> lies below
  2.72 by its Taylor polynomial with remainder, and \<open>exp (355 / 16384)\<close> above
  1.0219 by the quadratic one.
\<close>

lemma exp_1_le: "exp (1::real) \<le> 272 / 100"
proof -
  obtain t :: real where t: "\<bar>t\<bar> \<le> \<bar>1\<bar>"
    and e: "exp (1::real) = (\<Sum>m<8. 1 ^ m / fact m) + exp t / fact 8 * 1 ^ 8"
    using Maclaurin_exp_le[of 1 8] by blast
  have "exp t \<le> exp (1::real)" using t by simp
  then have "exp t \<le> 3" using exp_le by linarith
  then have "exp t / fact 8 * 1 ^ 8 \<le> (3::real) / fact 8"
    by (simp add: divide_right_mono)
  moreover have "(\<Sum>m<8. 1 ^ m / fact m) + (3::real) / fact 8 \<le> 272 / 100"
    by (simp add: lessThan_nat_numeral fact_numeral)
  ultimately show ?thesis using e by linarith
qed

lemma exp_709_fits: "exp (709 :: real) < float_limit"
proof -
  have a: "(272/100 :: real) ^ 142 \<le> 2 ^ 205"
    by (simp add: power_divide)
  have "((272/100 :: real) ^ 142) ^ 5 \<le> (2 ^ 205) ^ 5"
    using a by (intro power_mono) auto
  then have b: "(272/100 :: real) ^ 710 \<le> 2 ^ 1025"
    by (simp only: power_mult [symmetric]) simp
  have "exp (709 :: real) = exp (of_nat 709 * 1)" by simp
  also have "\<dots> = exp (1::real) ^ 709" by (simp only: exp_of_nat_mult)
  also have "\<dots> \<le> (272/100) ^ 709"
    using exp_1_le by (intro power_mono) auto
  finally have c: "exp (709 :: real) \<le> (272/100) ^ 709" .
  have "(272/100 :: real) ^ 709 * (272/100) = (272/100) ^ 710"
    by (simp only: power_Suc2 [symmetric]) simp
  then have "(272/100 :: real) ^ 709 * (272/100) \<le> 2 ^ 1025" using b by simp
  then have "(272/100 :: real) ^ 709 \<le> 2 ^ 1025 / (272/100)"
    by (simp add: pos_le_divide_eq)
  moreover have "(2::real) ^ 1025 / (272/100) < float_limit"
    by (simp add: float_limit_def)
  ultimately show ?thesis using c by linarith
qed

lemma exp_710_overflows: "float_limit \<le> exp (710 :: real)"
proof -
  have a: "(10219/10000::real) \<le> 1 + 355/16384 + (355/16384)\<^sup>2 / 2"
    by (simp add: power2_eq_square)
  have b: "1 + 355/16384 + (355/16384)\<^sup>2 / 2 \<le> exp (355/16384 :: real)"
    by (rule exp_lower_Taylor_quadratic) simp
  have c: "(2::real) \<le> (10219/10000) ^ 32"
    by (simp add: power_divide)
  have "(10219/10000 :: real) ^ 32 \<le> exp (355/16384) ^ 32"
    using a b by (intro power_mono) auto
  also have "\<dots> = exp (of_nat 32 * (355/16384 :: real))"
    by (simp only: exp_of_nat_mult)
  also have "\<dots> = exp (355/512 :: real)" by simp
  finally have d: "(2::real) \<le> exp (355/512)" using c by simp
  have "(2::real) ^ 1024 \<le> exp (355/512) ^ 1024"
    using d by (intro power_mono) auto
  also have "\<dots> = exp (of_nat 1024 * (355/512 :: real))"
    by (simp only: exp_of_nat_mult)
  also have "\<dots> = exp (710 :: real)" by simp
  finally have "(2::real) ^ 1024 \<le> exp 710" .
  moreover have "float_limit \<le> 2 ^ 1024" by (simp add: float_limit_def)
  ultimately show ?thesis by linarith
qed

lemma float_limit_gt: "710 < float_limit"
  by (simp add: float_limit_def)

lemma math_exp_fits:
  "math_exp x = Inr (exp x) \<longleftrightarrow> \<bar>x\<bar> < float_limit \<and> exp x < float_limit"
  by (auto simp: math_exp_def)

lemma math_exp_small:
  assumes "- float_limit < x" "x \<le> 709"
  shows "math_exp x = Inr (exp x)"
proof -
  from assms(2) have "exp x \<le> exp 709" by simp
  with exp_709_fits have "exp x < float_limit" by linarith
  moreover from assms float_limit_gt have "\<bar>x\<bar> < float_limit" by linarith
  ultimately show ?thesis by (simp add: math_exp_fits)
qed

lemma math_exp_large:
  assumes "710 \<le> x \<or> x \<le> - float_limit"
  shows "math_exp x = Inl OverflowError"
proof -
  from assms consider "710 \<le> x" | "x \<le> - float_limit" by blast
  then show ?thesis
  proof cases
    case 1
    then have "exp 710 \<le> exp x" by simp
    with exp_710_overflows have "float_limit \<le> exp x" by linarith
    then show ?thesis by (simp add: math_exp_def)
  next
    case 2
    then have "float_limit \<le> \<bar>x\<bar>" by linarith
    then show ?thesis by (simp add: math_exp_def)
  qed
qed

subsection \<open>A TreeSum of numbers\<close>

lemma upstream_spec_single: "upstream_spec [(key, v)] key = Some v"
proof (cases "key = []")
  case True
  then show ?thesis by (simp add: upstream_spec_root)
next
  case False
  have "\<forall>p \<in> set (prefixes (butlast key)). map_of [(key, v)] p = None"
  proof
    fix p assume "p \<in> set (prefixes (butlast key))"
    then have "length p \<le> length (butlast key)"
      by (auto simp: in_set_prefixes dest: prefix_length_le)
    moreover from False have "length (butlast key) < length key" by simp
    ultimately have "p \<noteq> key" by auto
    then show "map_of [(key, v)] p = None" by simp
  qed
  then have "upstream_spec [(key, v)] (butlast key) = None"
    by (simp add: upstream_spec_None)
  with False show ?thesis by (simp add: upstream_spec_step)
qed

lemma run_two_adds:
  "terms (run [Add key x, Add key y]) = [(key, x + y)]"
  by (simp add: run_def TreeSum_add_def TreeSum_init_def)

lemma two_adds_upstream:
  "fst (get_upstream (run [Add key x, Add key y]) key) = Some (x + y)"
proof -
  have "coherent (run [Add key x, Add key y])"
    using run_coherent[of "[Add key x, Add key y]"] by simp
  then show ?thesis
    by (simp add: get_upstream_coherent run_two_adds upstream_spec_single)
qed


subsection \<open>Broadcast and reduction\<close>

text \<open>
  C6 (broadcast-reduction round trip). Let \<open>t\<close> be a tensor of shape \<open>S\<close>, expanded to a
  shape \<open>S'\<close> without empty axes. Reducing the expansion with \<^verbatim>\<open>reduce_to_shape\<close> to the
  shape \<open>S\<close>, or to \<open>S\<close> preceded by size-1 axes for some of the axes the expansion
  added, or with \<^verbatim>\<open>reduce_to_target\<close> to a tensor of such a shape, yields the elements of
  \<open>t\<close> multiplied by the broadcast multiplicity, the number of elements of \<open>S'\<close> divided
  by that of \<open>S\<close>.
\<close>

theorem broadcast_reduction_round_trip:
  assumes "well_shaped t" and "expandable (shape t) s'"
    and "0 \<notin> set s'" and "j + dim t \<le> length s'"
  shows "reduce_to_shape (expand t s') (replicate j 1 @ shape t) =
           Tensor (replicate j 1 @ shape t)
             (map ((*) (real (prod_list s' div prod_list (shape t)))) (data t)) \<and>
         (shape target = replicate j 1 @ shape t \<longrightarrow>
            reduce_to_target (expand t s') target =
              Tensor (replicate j 1 @ shape t)
                (map ((*) (real (prod_list s' div prod_list (shape t)))) (data t)))"
  using reduce_to_shape_expand[OF assms] by (simp add: reduce_to_target_shape)

text \<open>
  The specification's example: the scalar 3.0 expanded to shape \<open>(4, 5)\<close> and reduced to
  shape \<open>(1, 1)\<close> is 60.0.
\<close>

theorem broadcast_reduction_round_trip_witness:
  "well_shaped (Tensor [] [3]) \<and> expandable (shape (Tensor [] [3])) [4, 5] \<and>
   0 \<notin> set [4, 5::nat] \<and> 2 + dim (Tensor [] [3]) \<le> length [4, 5::nat] \<and>
   reduce_to_shape (expand (Tensor [] [3]) [4, 5]) [1, 1] = Tensor [1, 1] [60] \<and>
   reduce_to_target (expand (Tensor [] [3]) [4, 5]) (Tensor [1, 1] [0]) = Tensor [1, 1] [60]"
  using broadcast_reduction_round_trip[of "Tensor [] [3]" "[4, 5]" 2 "Tensor [1, 1] [0]"]
  by (simp add: well_shaped_def expandable_def dim_def numeral_eq_Suc)

subsection \<open>Numbers in place of tensors\<close>

text \<open>
  C3 (numeric fallback). The helpers \<^verbatim>\<open>torch_sum\<close>, \<^verbatim>\<open>torch_data_sum\<close> and \<^verbatim>\<open>torch_backward\<close>
  accept a plain number, complex ones included: the sums return the number and
  \<^verbatim>\<open>backward\<close> is not called. \<^verbatim>\<open>torch_exp\<close> returns the ordinary exponential of an
  \<^verbatim>\<open>int\<close> or \<^verbatim>\<open>float\<close> \<open>x\<close> exactly when \<open>x\<close> and \<open>exp x\<close> are within the range of a float, as
  they are for every \<open>x \<le> 709\<close> above \<open>- float_limit\<close>; otherwise it raises
  \<^verbatim>\<open>OverflowError\<close>, as it does for every \<open>x \<ge> 710\<close>, and on a complex number it raises
  \<^verbatim>\<open>TypeError\<close>. A TreeSum over plain floats adds by ordinary arithmetic: two calls of
  \<^verbatim>\<open>add\<close> at a key with \<open>x\<close> and \<open>y\<close> make \<^verbatim>\<open>get_upstream\<close> of the key return \<open>x + y\<close>.
  \<^verbatim>\<open>MultiViewTensor.add\<close> does not accept a plain number: it raises, and the constructor
  ignores a number.
\<close>

theorem number_fallback:
  "torch_exp (Number x) =
     (if \<bar>x\<bar> < float_limit \<and> exp x < float_limit then Inr (Number (exp x))
      else Inl OverflowError) \<and>
   (- float_limit < x \<and> x \<le> 709 \<longrightarrow> torch_exp (Number x) = Inr (Number (exp x))) \<and>
   (710 \<le> x \<or> x \<le> - float_limit \<longrightarrow> torch_exp (Number x) = Inl OverflowError) \<and>
   torch_exp (ComplexNumber z) = Inl TypeError \<and>
   torch_sum (Number x) = Number x \<and>
   torch_sum (ComplexNumber z) = ComplexNumber z \<and>
   torch_data_sum (Number x) = Number x \<and>
   torch_data_sum (ComplexNumber z) = ComplexNumber z \<and>
   torch_backward (Number x) called = called \<and>
   torch_backward (ComplexNumber z) called = called \<and>
   fst (get_upstream (run [Add key x, Add key y]) key) = Some (x + y) \<and>
   MultiViewTensor_add m (Val (Number x)) = Inl AttributeError \<and>
   MultiViewTensor_add m (Val (ComplexNumber z)) = Inl AttributeError \<and>
   MultiViewTensor_init (Some (Number x)) = MultiViewTensor_init None \<and>
   MultiViewTensor_init (Some (ComplexNumber z)) = MultiViewTensor_init None"
proof -
  have "torch_exp (Number x) =
     (if \<bar>x\<bar> < float_limit \<and> exp x < float_limit then Inr (Number (exp x))
      else Inl OverflowError)"
    by (auto simp: math_exp_def)
  moreover have "- float_limit < x \<and> x \<le> 709 \<longrightarrow> torch_exp (Number x) = Inr (Number (exp x))"
    by (simp add: math_exp_small)
  moreover have "710 \<le> x \<or> x \<le> - float_limit \<longrightarrow> torch_exp (Number x) = Inl OverflowError"
    using math_exp_large[of x] by auto
  moreover have "fst (get_upstream (run [Add key x, Add key y]) key) = Some (x + y)"
    by (rule two_adds_upstream)
  ultimately show ?thesis by (simp add: MultiViewTensor_init_def)
qed

theorem number_fallback_witness:
  "torch_exp (Number 1) = Inr (Number (exp 1)) \<and>
   torch_exp (Number 709) = Inr (Number (exp 709)) \<and>
   torch_exp (Number 710) = Inl OverflowError \<and>
   torch_exp (Number (- (2 ^ 1024))) = Inl OverflowError"
  using number_fallback[of 1 0 "[]" "[0::nat]" 3 "[]", THEN conjunct2, THEN conjunct1]
    number_fallback[of 709 0 "[]" "[0::nat]" 3 "[]", THEN conjunct2, THEN conjunct1]
    number_fallback[of 710 0 "[]" "[0::nat]" 3 "[]",
      THEN conjunct2, THEN conjunct2, THEN conjunct1]
    number_fallback[of "- (2 ^ 1024)" 0 "[]" "[0::nat]" 3 "[]",
      THEN conjunct2, THEN conjunct2, THEN conjunct1]
  by (simp add: float_limit_def del: torch_exp.simps)

text \<open>
  \<^verbatim>\<open>MultiViewTensor().add(3.0)\<close> raises: a number is no \<^verbatim>\<open>Variable\<close> and has no \<^verbatim>\<open>items\<close>.
\<close>

theorem add_number_counterexample:
  "MultiViewTensor_add (MultiViewTensor_init None) (Val (Number 3)) = Inl AttributeError"
  by simp

subsection \<open>Contraction of an empty accumulator\<close>

text \<open>
  C7 (empty accumulator contraction). A \<^verbatim>\<open>MultiViewTensor\<close> constructed without a stored
  value, or from a value that is not stored, is empty, and on the empty accumulator
  \<^verbatim>\<open>contract(shape)\<close> and \<^verbatim>\<open>contract_as(target)\<close> return the plain number 0, for every
  target shape and every target tensor: no error, and no tensor.
\<close>

theorem contract_empty:
  "MultiViewTensor_init None = [] \<and>
   MultiViewTensor_init (Some (Number x)) = [] \<and>
   contract [] shp = Inr (Number 0) \<and>
   contract_as [] target = Inr (Number 0)"
  by (simp add: MultiViewTensor_init_def contract_def contract_as_def)

section \<open>Properties of broadcasting\<close>

lemma broadcast_rev_Nil2 [simp]: "broadcast_rev xs [] = Some xs"
  by (cases xs) simp_all

lemma broadcast_rev_same: "broadcast_rev xs xs = Some xs"
  by (induction xs) simp_all

lemma broadcast_shapes_same: "broadcast_shapes s s = Some s"
  by (simp add: broadcast_shapes_def broadcast_rev_same)

lemma broadcast_shapes_Nil: "broadcast_shapes [] s = Some s"
  by (simp add: broadcast_shapes_def)

lemma broadcast_rev_sym: "broadcast_rev a b = broadcast_rev b a"
  by (induction a b rule: broadcast_rev.induct) auto

lemma bind_map_option_Cons:
  "Option.bind (map_option ((#) x) m) f = Option.bind m (\<lambda>r. f (x # r))"
  by (cases m) simp_all

lemma bind_const_None: "Option.bind m (\<lambda>r. None) = None"
  by (cases m) simp_all

lemma bind_if_map:
  "Option.bind m (\<lambda>r. map_option g (f r)) = map_option g (Option.bind m f)"
  by (cases m) simp_all

lemma broadcast_rev_commute:
  "Option.bind (broadcast_rev a b) (\<lambda>ab. broadcast_rev ab c) =
   Option.bind (broadcast_rev a c) (\<lambda>ac. broadcast_rev ac b)"
proof (induction a arbitrary: b c)
  case Nil
  show ?case by (simp add: broadcast_rev_sym[of b c])
next
  case (Cons x xs)
  show ?case
  proof (cases b)
    case Nil
    then show ?thesis by simp
  next
    case b: (Cons y ys)
    show ?thesis
    proof (cases c)
      case Nil
      then show ?thesis by simp
    next
      case c: (Cons z zs)
      have ih: "Option.bind (broadcast_rev xs ys) (\<lambda>r. broadcast_rev r zs) =
                Option.bind (broadcast_rev xs zs) (\<lambda>r. broadcast_rev r ys)"
        by (rule Cons.IH)
      show ?thesis
        unfolding b c
        by (simp add: bind_map_option_Cons bind_const_None bind_if_map ih)
    qed
  qed
qed


lemma expands_rev_conv:
  "expands_rev xs ys \<longleftrightarrow>
   length xs \<le> length ys \<and> list_all2 (\<lambda>n n'. n = n' \<or> n = 1) xs (take (length xs) ys)"
  by (induction xs ys rule: expands_rev.induct) auto

lemma expandable_rev: "expandable s s' \<longleftrightarrow> expands_rev (rev s) (rev s')"
proof (cases "length s \<le> length s'")
  case True
  then have "take (length s) (rev s') = rev (drop (length s' - length s) s')"
    by (simp add: rev_drop)
  then show ?thesis
    using True by (simp add: expandable_def expands_rev_conv)
next
  case False
  then show ?thesis by (simp add: expandable_def expands_rev_conv)
qed

lemma expands_rev_refl: "expands_rev xs xs"
  by (induction xs) simp_all

lemma broadcast_rev_expands:
  "broadcast_rev a b = Some c \<Longrightarrow> expands_rev a c \<and> expands_rev b c"
  by (induction a b arbitrary: c rule: broadcast_rev.induct)
     (auto simp: expands_rev_refl split: if_splits)

lemma broadcast_shapes_expandable:
  assumes "broadcast_shapes a b = Some s"
  shows "expandable a s" and "expandable b s"
proof -
  from assms obtain c where c: "broadcast_rev (rev a) (rev b) = Some c" "s = rev c"
    by (auto simp: broadcast_shapes_def)
  from broadcast_rev_expands[OF c(1)] c(2)
  show "expandable a s" and "expandable b s" by (simp_all add: expandable_rev)
qed

lemma expandable_refl: "expandable s s"
  by (simp add: expandable_rev expands_rev_refl)

lemma expandable_length: "expandable s s' \<Longrightarrow> length s \<le> length s'"
  by (simp add: expandable_def)

lemma expandable_nth:
  assumes "expandable s s'" "k < length s"
  shows "s ! k = s' ! (length s' - length s + k) \<or> s ! k = 1"
proof -
  from assms(1) have "list_all2 (\<lambda>n n'. n = n' \<or> n = 1) s (drop (length s' - length s) s')"
    by (simp add: expandable_def)
  from list_all2_nthD[OF this assms(2)] assms show ?thesis
    by (simp add: expandable_def)
qed

lemma expands_rev_trans:
  "expands_rev a b \<Longrightarrow> expands_rev b c \<Longrightarrow> expands_rev a c"
proof (induction a b arbitrary: c rule: expands_rev.induct)
  case (1 ys)
  then show ?case by simp
next
  case (2 x xs)
  then show ?case by simp
next
  case (3 x xs y ys)
  then show ?case by (cases c) auto
qed

lemma expandable_trans: "expandable a b \<Longrightarrow> expandable b c \<Longrightarrow> expandable a c"
  unfolding expandable_rev by (rule expands_rev_trans)

lemma source_index_valid:
  assumes "expandable s s'" "idx \<in> set (indices s')"
  shows "source_index s idx \<in> set (indices s)"
proof -
  from assms(2) have len: "length idx = length s'" by (rule in_indices_length)
  with assms(1) have le: "length s \<le> length idx" by (simp add: expandable_def)
  have "source_index s idx ! k < s ! k" if k: "k < length s" for k
  proof (cases "s ! k = 1")
    case True
    with k le show ?thesis by (simp add: nth_source_index)
  next
    case False
    with expandable_nth[OF assms(1) k] have e: "s ! k = s' ! (length s' - length s + k)" by simp
    have "length s' - length s + k < length s'" using k le len by simp
    with assms(2) have "idx ! (length s' - length s + k) < s' ! (length s' - length s + k)"
      by (simp add: in_indices list_all2_conv_all_nth)
    with False k le e len show ?thesis by (simp add: nth_source_index)
  qed
  then show ?thesis
    using le by (simp add: in_indices list_all2_conv_all_nth length_source_index)
qed

lemma source_index_compose:
  assumes "expandable s a" "length a \<le> length idx"
  shows "source_index s (source_index a idx) = source_index s idx"
proof (rule nth_equalityI)
  have le: "length s \<le> length a" using assms(1) by (rule expandable_length)
  show "length (source_index s (source_index a idx)) = length (source_index s idx)"
    using le assms(2) by (simp add: length_source_index)
  fix k assume "k < length (source_index s (source_index a idx))"
  then have k: "k < length s" using le assms(2) by (simp add: length_source_index)
  show "source_index s (source_index a idx) ! k = source_index s idx ! k"
  proof (cases "s ! k = 1")
    case True
    with k le assms(2) show ?thesis by (simp add: nth_source_index length_source_index)
  next
    case False
    with expandable_nth[OF assms(1) k] have e: "a ! (length a - length s + k) = s ! k" by simp
    have ka: "length a - length s + k < length a" using k le by simp
    have "source_index s (source_index a idx) ! k = source_index a idx ! (length a - length s + k)"
      using False k le assms(2) by (simp add: nth_source_index length_source_index)
    also have "\<dots> = idx ! (length idx - length a + (length a - length s + k))"
      using False e ka assms(2) by (simp add: nth_source_index)
    also have "\<dots> = source_index s idx ! k"
      using False k le assms(2) by (simp add: nth_source_index)
    finally show ?thesis .
  qed
qed

lemma source_index_id:
  assumes "idx \<in> set (indices s)"
  shows "source_index s idx = idx"
proof (rule nth_equalityI)
  from assms have len: "length idx = length s" by (rule in_indices_length)
  then show "length (source_index s idx) = length idx" by (simp add: length_source_index)
  fix k assume "k < length (source_index s idx)"
  then have k: "k < length s" using len by (simp add: length_source_index)
  with assms have "idx ! k < s ! k" by (simp add: in_indices list_all2_conv_all_nth)
  with k len show "source_index s idx ! k = idx ! k" by (auto simp: nth_source_index)
qed

lemma map2_same_list: "map2 f (map g xs) (map h xs) = map (\<lambda>x. f (g x) (h x)) xs"
  by (induction xs) simp_all

lemma tensor_add_tabulate:
  assumes "broadcast_shapes (shape a) (shape b) = Some s"
  shows "tensor_add a b =
         Inr (tabulate s (\<lambda>idx. element a (source_index (shape a) idx) +
                              element b (source_index (shape b) idx)))"
  using assms
  by (simp add: tensor_add_def expand_def tabulate_def map2_same_list del: map2_map_map)

section \<open>Properties of MultiViewTensor\<close>

lemma tensor_add_same_shape:
  assumes "shape a = s" "shape b = s"
  shows "tensor_add a b = Inr (tabulate s (\<lambda>idx. element a idx + element b idx))"
proof -
  have "tensor_add a b =
        Inr (tabulate s (\<lambda>idx. element a (source_index s idx) + element b (source_index s idx)))"
    using tensor_add_tabulate[of a b s] assms by (simp add: broadcast_shapes_same)
  also have "tabulate s (\<lambda>idx. element a (source_index s idx) + element b (source_index s idx)) =
             tabulate s (\<lambda>idx. element a idx + element b idx)"
    by (rule tabulate_cong) (simp add: source_index_id)
  finally show ?thesis .
qed

lemma keyed_by_shape_update:
  assumes "keyed_by_shape m" "shape x = s" "well_shaped x"
  shows "keyed_by_shape (AList.update s x m)"
proof -
  have "distinct (map fst (AList.update s x m))"
    using assms(1) by (simp add: keyed_by_shape_def distinct_update)
  moreover have "shape y = k \<and> well_shaped y" if "(k, y) \<in> set (AList.update s x m)" for k y
  proof -
    from that \<open>distinct (map fst (AList.update s x m))\<close>
    have "map_of (AList.update s x m) k = Some y" by simp
    then have "((map_of m)(s \<mapsto> x)) k = Some y" by (simp add: update_conv')
    then show ?thesis
      using assms by (auto simp: keyed_by_shape_def split: if_splits dest: map_of_SomeD)
  qed
  ultimately show ?thesis by (auto simp: keyed_by_shape_def)
qed

lemma keyed_by_shape_lookup:
  "keyed_by_shape m \<Longrightarrow> map_of m s = Some x \<Longrightarrow> shape x = s \<and> well_shaped x"
  by (auto simp: keyed_by_shape_def dest: map_of_SomeD)

lemma same_shape_sum_snoc_other:
  "shape x \<noteq> s \<Longrightarrow> same_shape_sum s (xs @ [x]) = same_shape_sum s xs"
  by (simp add: same_shape_sum_def)

lemma same_shape_sum_snoc_None:
  assumes "same_shape_sum (shape x) xs = None" "well_shaped x"
  shows "same_shape_sum (shape x) (xs @ [x]) = Some x"
proof -
  from assms(1) have "filter (\<lambda>y. shape y = shape x) xs = []"
    by (simp add: same_shape_sum_def split: if_splits)
  then show ?thesis
    using tabulate_element[OF assms(2)] by (simp add: same_shape_sum_def)
qed

lemma same_shape_sum_snoc_Some:
  assumes "same_shape_sum (shape x) xs = Some old"
  shows "same_shape_sum (shape x) (xs @ [x]) =
         Some (tabulate (shape x) (\<lambda>idx. element old idx + element x idx))"
proof -
  let ?f = "filter (\<lambda>y. shape y = shape x) xs"
  from assms have old: "old = tabulate (shape x) (\<lambda>idx. \<Sum>y\<leftarrow>?f. element y idx)"
    by (simp add: same_shape_sum_def split: if_splits)
  have "tabulate (shape x) (\<lambda>idx. \<Sum>y\<leftarrow>?f @ [x]. element y idx) =
        tabulate (shape x) (\<lambda>idx. element old idx + element x idx)"
    by (rule tabulate_cong) (simp add: old element_tabulate)
  then show ?thesis by (simp add: same_shape_sum_def)
qed

lemma add_entry_sum:
  assumes k: "keyed_by_shape m" and w: "well_shaped x"
    and inv: "\<forall>s. map_of m s = same_shape_sum s xs"
  shows "\<exists>m'. add_entry m (shape x) x = Inr m' \<and> keyed_by_shape m' \<and>
              (\<forall>s. map_of m' s = same_shape_sum s (xs @ [x]))"
proof (cases "map_of m (shape x)")
  case None
  let ?m' = "AList.update (shape x) x m"
  have "add_entry m (shape x) x = Inr ?m'" using None by (simp add: add_entry_def)
  moreover have "keyed_by_shape ?m'" using k w by (intro keyed_by_shape_update) simp_all
  moreover have "map_of ?m' s = same_shape_sum s (xs @ [x])" for s
  proof (cases "s = shape x")
    case True
    with None inv same_shape_sum_snoc_None[of x xs] w show ?thesis
      by (simp add: update_conv')
  next
    case False
    with inv show ?thesis by (simp add: update_conv' same_shape_sum_snoc_other)
  qed
  ultimately show ?thesis by blast
next
  case (Some old)
  let ?new = "tabulate (shape x) (\<lambda>idx. element old idx + element x idx)"
  let ?m' = "AList.update (shape x) ?new m"
  from keyed_by_shape_lookup[OF k Some] have so: "shape old = shape x" by simp
  have "tensor_add old x = Inr ?new" using so by (intro tensor_add_same_shape) simp_all
  then have "add_entry m (shape x) x = Inr ?m'" using Some by (simp add: add_entry_def)
  moreover have "keyed_by_shape ?m'"
    using k by (intro keyed_by_shape_update) (simp_all add: well_shaped_tabulate)
  moreover have "map_of ?m' s = same_shape_sum s (xs @ [x])" for s
  proof (cases "s = shape x")
    case True
    from Some inv have "same_shape_sum (shape x) xs = Some old" by simp
    from same_shape_sum_snoc_Some[OF this] True show ?thesis by (simp add: update_conv')
  next
    case False
    with inv show ?thesis by (simp add: update_conv' same_shape_sum_snoc_other)
  qed
  ultimately show ?thesis by blast
qed

lemma add_terms_sum:
  assumes "keyed_by_shape m" "\<forall>x \<in> set xs. well_shaped x"
    and "\<forall>s. map_of m s = same_shape_sum s ps"
  shows "\<exists>m'. add_terms m xs = Inr m' \<and> keyed_by_shape m' \<and>
              (\<forall>s. map_of m' s = same_shape_sum s (ps @ xs))"
  using assms
proof (induction xs arbitrary: m ps)
  case Nil
  then show ?case by simp
next
  case (Cons x xs)
  from Cons.prems have w: "well_shaped x" by simp
  from add_entry_sum[OF Cons.prems(1) w Cons.prems(3)] obtain m1 where
    m1: "add_entry m (shape x) x = Inr m1" "keyed_by_shape m1"
      "\<forall>s. map_of m1 s = same_shape_sum s (ps @ [x])" by blast
  from Cons.prems have "\<forall>y \<in> set xs. well_shaped y" by simp
  from Cons.IH[OF m1(2) this m1(3)] m1(1) show ?case by simp
qed

lemma keyed_by_shape_empty: "keyed_by_shape []"
  by (simp add: keyed_by_shape_def)

lemma same_shape_sum_Nil: "same_shape_sum s [] = None"
  by (simp add: same_shape_sum_def)

lemma add_terms_from_empty:
  assumes "\<forall>x \<in> set xs. well_shaped x"
  shows "\<exists>m. add_terms [] xs = Inr m \<and> keyed_by_shape m \<and>
             (\<forall>s. map_of m s = same_shape_sum s xs)"
  using add_terms_sum[OF keyed_by_shape_empty assms, of "[]"]
  by (simp add: same_shape_sum_Nil)

lemma group_reduced_code:
  assumes "0 \<le> d"
  shows "(if d = 0 then sum_all x else if d > int (dim x) then x else sum_leftmost x (- d)) =
         group_reduced d x"
  using assms by (auto simp: group_reduced_def sum_all_def sum_leftmost_def Let_def)

lemma well_shaped_group_reduced: "well_shaped x \<Longrightarrow> well_shaped (group_reduced d x)"
  by (simp add: group_reduced_def well_shaped_tabulate) (simp add: well_shaped_def)

lemma sum_leftmost_all_but_loop_add_terms:
  assumes "0 \<le> d"
  shows "sum_leftmost_all_but_loop d entries result =
         add_terms result (map (group_reduced d) (map snd entries))"
proof (induction entries arbitrary: result)
  case Nil
  show ?case by simp
next
  case (Cons item entries)
  obtain shp x where item: "item = (shp, x)" by (cases item)
  show ?case
    using group_reduced_code[OF assms, of x] Cons.IH
    by (simp add: item split: if_splits sum.splits)
qed

section \<open>Sums of tensors of different shapes\<close>

lemma fold_bind_None:
  "fold (\<lambda>s acc. Option.bind acc (\<lambda>c. broadcast_shapes c s)) ss None = None"
  by (induction ss) simp_all

lemma fold_broadcast_expandable:
  "fold (\<lambda>s acc. Option.bind acc (\<lambda>c. broadcast_shapes c s)) ss (Some a) = Some s'
   \<Longrightarrow> expandable a s'"
proof (induction ss arbitrary: a)
  case Nil
  then show ?case by (simp add: expandable_refl)
next
  case (Cons s ss)
  show ?case
  proof (cases "broadcast_shapes a s")
    case None
    with Cons.prems show ?thesis by (simp add: fold_bind_None)
  next
    case (Some a')
    with Cons.prems have "expandable a' s'" by (intro Cons.IH) simp
    with broadcast_shapes_expandable(1)[OF Some] show ?thesis by (rule expandable_trans)
  qed
qed

lemma py_sum_from_chain:
  "py_sum_from (Variable (tabulate a g)) (map Variable xs) =
     (case fold (\<lambda>s acc. Option.bind acc (\<lambda>c. broadcast_shapes c s)) (map shape xs) (Some a) of
        None \<Rightarrow> Inl RuntimeError
      | Some s \<Rightarrow>
          Inr (Variable (tabulate s (\<lambda>idx. g (source_index a idx) +
                 (\<Sum>x\<leftarrow>xs. element x (source_index (shape x) idx))))))"
proof (induction xs arbitrary: a g)
  case Nil
  have "tabulate a (\<lambda>idx. g (source_index a idx) + 0) = tabulate a g"
    by (rule tabulate_cong) (simp add: source_index_id)
  then show ?case by simp
next
  case (Cons x xs)
  let ?F = "\<lambda>s acc. Option.bind acc (\<lambda>c. broadcast_shapes c s)"
  show ?case
  proof (cases "broadcast_shapes a (shape x)")
    case None
    then show ?thesis by (simp add: tensor_add_def fold_bind_None)
  next
    case (Some a')
    let ?g' = "\<lambda>idx. element (tabulate a g) (source_index a idx) +
                     element x (source_index (shape x) idx)"
    have add: "tensor_add (tabulate a g) x = Inr (tabulate a' ?g')"
      using tensor_add_tabulate[of "tabulate a g" x a'] Some by simp
    have ea: "expandable a a'" and ex: "expandable (shape x) a'"
      using broadcast_shapes_expandable[OF Some] by simp_all
    show ?thesis
    proof (cases "fold ?F (map shape xs) (Some a')")
      case None
      then show ?thesis using Some add Cons.IH[of a' ?g'] by simp
    next
      case s: (Some s)
      have es: "expandable a' s" using s by (rule fold_broadcast_expandable)
      have "tabulate s (\<lambda>idx. ?g' (source_index a' idx) +
                (\<Sum>y\<leftarrow>xs. element y (source_index (shape y) idx))) =
            tabulate s (\<lambda>idx. g (source_index a idx) +
                (\<Sum>y\<leftarrow>x # xs. element y (source_index (shape y) idx)))"
      proof (rule tabulate_cong)
        fix idx assume idx: "idx \<in> set (indices s)"
        then have len: "length a' \<le> length idx"
          using expandable_length[OF es] by (simp add: in_indices_length)
        have "source_index a idx \<in> set (indices a)"
          using expandable_trans[OF ea es] idx by (rule source_index_valid)
        then have "?g' (source_index a' idx) =
                   g (source_index a idx) + element x (source_index (shape x) idx)"
          by (simp add: source_index_compose[OF ea len] source_index_compose[OF ex len]
              element_tabulate)
        then show "?g' (source_index a' idx) +
                (\<Sum>y\<leftarrow>xs. element y (source_index (shape y) idx)) =
              g (source_index a idx) +
                (\<Sum>y\<leftarrow>x # xs. element y (source_index (shape y) idx))"
          by simp
      qed
      then show ?thesis using Some add s Cons.IH[of a' ?g'] by simp
    qed
  qed
qed

lemma py_add_zero: "py_add (Number 0) (Variable x) = Inr (Variable x)"
  by (cases x) (auto intro: map_idI)

lemma py_sum_Variables:
  assumes "xs \<noteq> []" "\<forall>x \<in> set xs. well_shaped x"
  shows "py_sum (map Variable xs) =
     (case broadcast_all (map shape xs) of
        None \<Rightarrow> Inl RuntimeError
      | Some s \<Rightarrow>
          Inr (Variable (tabulate s (\<lambda>idx. \<Sum>x\<leftarrow>xs. element x (source_index (shape x) idx)))))"
proof -
  from assms(1) obtain x rest where xs: "xs = x # rest" by (cases xs) auto
  with assms(2) have "well_shaped x" by simp
  then have x: "x = tabulate (shape x) (element x)" by (simp add: tabulate_element)
  have "py_sum (map Variable xs) = py_sum_from (Variable x) (map Variable rest)"
    by (simp add: py_sum_def xs py_add_zero del: py_add.simps)
  also have "\<dots> = py_sum_from (Variable (tabulate (shape x) (element x))) (map Variable rest)"
    using x by simp
  finally show ?thesis
    by (simp add: py_sum_from_chain broadcast_all_def xs broadcast_shapes_Nil
        cong: option.case_cong)
qed

lemma broadcast_shapes_commute:
  "Option.bind (broadcast_shapes a b) (\<lambda>ab. broadcast_shapes ab c) =
   Option.bind (broadcast_shapes a c) (\<lambda>ac. broadcast_shapes ac b)"
proof -
  have "Option.bind (broadcast_shapes a b) (\<lambda>ab. broadcast_shapes ab c) =
        map_option rev (Option.bind (broadcast_rev (rev a) (rev b)) (\<lambda>r. broadcast_rev r (rev c)))"
    for a b c
    by (cases "broadcast_rev (rev a) (rev b)") (simp_all add: broadcast_shapes_def)
  then show ?thesis by (simp add: broadcast_rev_commute[of "rev a" "rev b" "rev c"])
qed

lemma broadcast_all_mset:
  assumes "mset ss = mset ss'"
  shows "broadcast_all ss = broadcast_all ss'"
proof -
  let ?F = "\<lambda>s acc. Option.bind acc (\<lambda>c. broadcast_shapes c s)"
  have "?F s \<circ> ?F s' = ?F s' \<circ> ?F s" for s s'
  proof
    fix acc show "(?F s \<circ> ?F s') acc = (?F s' \<circ> ?F s) acc"
      by (cases acc) (simp_all add: broadcast_shapes_commute[of _ s' s])
  qed
  then have "fold ?F ss = fold ?F ss'"
    using assms by (intro fold_multiset_equiv) simp_all
  then show ?thesis by (simp add: broadcast_all_def)
qed

lemma sum_list_mset:
  fixes f :: "'a \<Rightarrow> real"
  assumes "mset xs = mset ys"
  shows "(\<Sum>x\<leftarrow>xs. f x) = (\<Sum>x\<leftarrow>ys. f x)"
proof -
  have "(\<Sum>x\<leftarrow>xs. f x) = sum_mset (image_mset f (mset xs))"
    by (simp add: sum_mset_sum_list[symmetric])
  also have "\<dots> = sum_mset (image_mset f (mset ys))" using assms by simp
  also have "\<dots> = (\<Sum>x\<leftarrow>ys. f x)" by (simp add: sum_mset_sum_list[symmetric])
  finally show ?thesis .
qed

lemma py_sum_mset:
  assumes "mset xs = mset ys" "\<forall>x \<in> set xs. well_shaped x"
  shows "py_sum (map Variable xs) = py_sum (map Variable ys)"
proof (cases "xs = []")
  case True
  with assms(1) show ?thesis by simp
next
  case False
  with assms(1) have ys: "ys \<noteq> []" by auto
  from assms have wy: "\<forall>x \<in> set ys. well_shaped x" by (metis mset_eq_setD)
  have "mset (map shape xs) = mset (map shape ys)" using assms(1) by simp
  then have b: "broadcast_all (map shape xs) = broadcast_all (map shape ys)"
    by (rule broadcast_all_mset)
  have "(\<lambda>idx. \<Sum>x\<leftarrow>xs. element x (source_index (shape x) idx)) =
        (\<lambda>idx. \<Sum>x\<leftarrow>ys. element x (source_index (shape x) idx))"
    using assms(1) by (intro ext sum_list_mset)
  then show ?thesis
    by (simp add: py_sum_Variables[OF False assms(2)] py_sum_Variables[OF ys wy] b
        cong: option.case_cong)
qed

section \<open>Order of the additions\<close>

lemma well_shaped_sum_leading: "well_shaped x \<Longrightarrow> well_shaped (sum_leading x n)"
proof (induction x n rule: sum_leading.induct)
  case (1 source n)
  show ?case
  proof (cases "dim source > n")
    case True
    have "well_shaped (sum0 source)" by (simp add: sum0_def well_shaped_tabulate)
    with 1 True show ?thesis by (subst sum_leading.simps) simp
  next
    case False
    with 1 show ?thesis by (subst sum_leading.simps) simp
  qed
qed

lemma well_shaped_fold_reduce:
  "well_shaped x \<Longrightarrow>
   well_shaped (fold (\<lambda>k source. if c k source then sum_keepdim source k else source) ks x)"
  by (induction ks arbitrary: x) (simp_all add: sum_keepdim_def Let_def well_shaped_tabulate)

lemma well_shaped_reduce_to_shape: "well_shaped x \<Longrightarrow> well_shaped (reduce_to_shape x shp)"
  unfolding reduce_to_shape_def Let_def
  by (intro well_shaped_fold_reduce[where c = "\<lambda>k source. size_neg source k > shp ! (length shp - k)"]
        well_shaped_sum_leading)

lemma keyed_by_shape_mset:
  assumes "keyed_by_shape m" "keyed_by_shape m'" "map_of m = map_of m'"
  shows "mset m = mset m'"
proof -
  have d: "distinct (map fst m)" "distinct (map fst m')"
    using assms by (simp_all add: keyed_by_shape_def)
  then have "set m = set m'" using assms(3) by (simp add: map_of_inject_set)
  moreover have "distinct m" "distinct m'" using d by (simp_all add: distinct_map)
  ultimately show ?thesis by (simp add: set_eq_iff_mset_eq_distinct)
qed

lemma contract_mset:
  assumes "mset m = mset m'" "\<forall>x \<in> snd ` set m. well_shaped x"
  shows "contract m shp = contract m' shp"
proof -
  let ?r = "\<lambda>x. reduce_to_shape x shp"
  have e: "m = [] \<longleftrightarrow> m' = []" using assms(1) by auto
  have "mset (map ?r (map snd m)) = mset (map ?r (map snd m'))" using assms(1) by simp
  moreover have "\<forall>x \<in> set (map ?r (map snd m)). well_shaped x"
    using assms(2) by (auto intro: well_shaped_reduce_to_shape)
  ultimately have "py_sum (map Variable (map ?r (map snd m))) =
                   py_sum (map Variable (map ?r (map snd m')))"
    by (rule py_sum_mset)
  then show ?thesis using e by (simp add: contract_def comp_def)
qed

lemma contract_as_shape: "contract_as m target = contract m (shape target)"
  by (simp add: contract_as_def contract_def reduce_to_target_shape)

lemma same_shape_sum_mset:
  assumes "mset xs = mset ys"
  shows "same_shape_sum s xs = same_shape_sum s ys"
proof -
  let ?f = "filter (\<lambda>x. shape x = s)"
  have m: "mset (?f xs) = mset (?f ys)" using assms by simp
  then have e: "?f xs = [] \<longleftrightarrow> ?f ys = []" by (metis mset_zero_iff)
  have "(\<lambda>idx. \<Sum>x\<leftarrow>?f xs. element x idx) = (\<lambda>idx. \<Sum>x\<leftarrow>?f ys. element x idx)"
    using m by (intro ext sum_list_mset)
  with e show ?thesis by (simp add: same_shape_sum_def)
qed

lemma accumulator_order:
  assumes "mset xs = mset ys" "\<forall>x \<in> set xs. well_shaped x"
  shows "\<exists>m m'. add_terms [] xs = Inr m \<and> add_terms [] ys = Inr m' \<and>
                map_of m = map_of m' \<and>
                (\<forall>shp. contract m shp = contract m' shp) \<and>
                (\<forall>target. contract_as m target = contract_as m' target)"
proof -
  from assms have wy: "\<forall>x \<in> set ys. well_shaped x" by (metis mset_eq_setD)
  from add_terms_from_empty[OF assms(2)] obtain m where
    m: "add_terms [] xs = Inr m" "keyed_by_shape m" "\<forall>s. map_of m s = same_shape_sum s xs"
    by blast
  from add_terms_from_empty[OF wy] obtain m' where
    m': "add_terms [] ys = Inr m'" "keyed_by_shape m'" "\<forall>s. map_of m' s = same_shape_sum s ys"
    by blast
  have eq: "map_of m = map_of m'"
    using m(3) m'(3) same_shape_sum_mset[OF assms(1)] by (intro ext) simp
  have ms: "mset m = mset m'" using m(2) m'(2) eq by (rule keyed_by_shape_mset)
  have w: "\<forall>x \<in> snd ` set m. well_shaped x"
    using m(2) by (auto simp: keyed_by_shape_def)
  have c: "contract m shp = contract m' shp" for shp using ms w by (rule contract_mset)
  then have "contract_as m target = contract_as m' target" for target
    by (simp add: contract_as_shape)
  with m(1) m'(1) eq c show ?thesis by blast
qed

lemma merge_term_commute:
  fixes a b :: "'k list \<times> 'v::ab_semigroup_add"
  shows "merge_term a \<circ> merge_term b = merge_term b \<circ> merge_term a"
proof (intro ext)
  fix m :: "'k list \<rightharpoonup> 'v" and k
  show "(merge_term a \<circ> merge_term b) m k = (merge_term b \<circ> merge_term a) m k"
    by (cases "m (fst a)"; cases "m (fst b)")
       (auto simp: merge_term_def ac_simps)
qed

lemma run_adds:
  "frozen (run (map (\<lambda>(k, v). Add k v) kvs)) = False \<and>
   upstream (run (map (\<lambda>(k, v). Add k v) kvs)) = [] \<and>
   map_of (terms (run (map (\<lambda>(k, v). Add k v) kvs))) = fold merge_term kvs Map.empty"
proof (induction kvs rule: rev_induct)
  case Nil
  show ?case by (simp add: run_def TreeSum_init_def)
next
  case (snoc kv kvs)
  obtain k v where kv: "kv = (k, v)" by (cases kv)
  from snoc show ?case
    by (auto simp: kv run_snoc TreeSum_add_def merge_term_def update_conv' split: option.splits)
qed

lemma upstream_spec_map_of:
  "map_of ts = map_of ts' \<Longrightarrow> upstream_spec ts key = upstream_spec ts' key"
  by (simp add: upstream_spec_def)

lemma tree_order:
  fixes kvs kvs' :: "('k list \<times> 'v::ab_semigroup_add) list"
  assumes "mset kvs = mset kvs'"
  shows "fst (get_upstream (run (map (\<lambda>(k, v). Add k v) kvs)) key) =
         fst (get_upstream (run (map (\<lambda>(k, v). Add k v) kvs')) key)"
proof -
  let ?t = "run (map (\<lambda>(k, v). Add k v) kvs)"
  let ?t' = "run (map (\<lambda>(k, v). Add k v) kvs')"
  have "fold merge_term kvs = (fold merge_term kvs' :: ('k list \<rightharpoonup> 'v) \<Rightarrow> _)"
    using assms by (intro fold_multiset_equiv merge_term_commute)
  then have "map_of (terms ?t) = map_of (terms ?t')"
    using run_adds[of kvs] run_adds[of kvs'] by simp
  then have "upstream_spec (terms ?t) key = upstream_spec (terms ?t') key"
    by (rule upstream_spec_map_of)
  moreover have "coherent ?t" "coherent ?t'"
    using run_adds[of kvs] run_adds[of kvs'] by (simp_all add: coherent_empty_cache)
  ultimately show ?thesis by (simp add: get_upstream_val coherent_val)
qed

section \<open>Group reduction and order independence\<close>

text \<open>
  C8 (group reduction). For every accumulator \<open>m\<close> that keys its tensors by their shapes
  and every \<open>dim \<ge> 0\<close>, \<^verbatim>\<open>sum_leftmost_all_but(dim)\<close> returns a new accumulator and does not
  raise. Each stored tensor contributes \<open>group_reduced dim\<close> of it: the tensor without axes
  holding the sum of all elements when \<open>dim = 0\<close>; the tensor itself when \<open>dim\<close> exceeds
  its rank; otherwise the tensor summed over its leftmost \<open>rank - dim\<close> axes, which keeps
  the last \<open>dim\<close> axes. The entry of the result at a shape is the sum of the contributions
  of that shape, and there is no entry at a shape without contribution.
\<close>

theorem group_reduction:
  assumes "keyed_by_shape m" "0 \<le> d"
  shows "\<exists>r. sum_leftmost_all_but m d = Inr r \<and> keyed_by_shape r \<and>
             (\<forall>s. map_of r s = same_shape_sum s (map (group_reduced d) (map snd m)))"
proof -
  have "\<forall>x \<in> set (map (group_reduced d) (map snd m)). well_shaped x"
    using assms(1) by (auto simp: keyed_by_shape_def intro!: well_shaped_group_reduced)
  from add_terms_from_empty[OF this] show ?thesis
    using assms(2)
    by (simp add: sum_leftmost_all_but_def sum_leftmost_all_but_loop_add_terms
        MultiViewTensor_init_def)
qed


theorem group_reduction_witness:
  "keyed_by_shape [([2], Tensor [2] [1, 2]), ([2, 3], Tensor [2, 3] [1, 2, 3, 4, 5, 6])] \<and>
   (\<exists>r. sum_leftmost_all_but
           [([2], Tensor [2] [1, 2]), ([2, 3], Tensor [2, 3] [1, 2, 3, 4, 5, 6])] 0 = Inr r \<and>
        map_of r [] = Some (Tensor [] [24]) \<and> map_of r [2] = None) \<and>
   (\<exists>r. sum_leftmost_all_but
           [([2], Tensor [2] [1, 2]), ([2, 3], Tensor [2, 3] [1, 2, 3, 4, 5, 6])] 1 = Inr r \<and>
        map_of r [2] = Some (Tensor [2] [1, 2]) \<and>
        map_of r [3] = Some (Tensor [3] [5, 7, 9]))"
proof -
  let ?m = "[([2], Tensor [2] [1, 2]), ([2, 3], Tensor [2, 3] [1, 2, 3, 4, 5, 6])]"
  have k: "keyed_by_shape ?m" by (simp add: keyed_by_shape_def well_shaped_def)
  have a: "same_shape_sum [] (map (group_reduced 0) (map snd ?m)) = Some (Tensor [] [24])"
    by (simp add: same_shape_sum_def group_reduced_def tabulate_def element_def)
  have b: "same_shape_sum [2] (map (group_reduced 0) (map snd ?m)) = None"
    by (simp add: same_shape_sum_def group_reduced_def)
  have c: "same_shape_sum [2] (map (group_reduced 1) (map snd ?m)) = Some (Tensor [2] [1, 2])"
    by (simp add: same_shape_sum_def group_reduced_def tabulate_def element_def dim_def
        numeral_eq_Suc)
  have d: "same_shape_sum [3] (map (group_reduced 1) (map snd ?m)) = Some (Tensor [3] [5, 7, 9])"
    by (simp add: same_shape_sum_def group_reduced_def tabulate_def element_def dim_def
        numeral_eq_Suc)
  from group_reduction[OF k, of 0] a b
  have "\<exists>r. sum_leftmost_all_but ?m 0 = Inr r \<and>
            map_of r [] = Some (Tensor [] [24]) \<and> map_of r [2] = None"
    by auto
  moreover from group_reduction[OF k, of 1] c d
  have "\<exists>r. sum_leftmost_all_but ?m 1 = Inr r \<and>
            map_of r [2] = Some (Tensor [2] [1, 2]) \<and> map_of r [3] = Some (Tensor [3] [5, 7, 9])"
    by auto
  ultimately show ?thesis using k by blast
qed

text \<open>
  C5 (order independence). Two sequences of \<^verbatim>\<open>add\<close> calls that present the same multiset
  of (key, value) pairs to a fresh TreeSum leave the same upstream sum at every key, the
  addition of the values being commutative and associative. Two sequences that present
  the same multiset of tensors to an empty MultiViewTensor both succeed and leave the same
  sum at every shape, and \<^verbatim>\<open>contract\<close> and \<^verbatim>\<open>contract_as\<close> give the same result on the
  two accumulators for every target.
\<close>

theorem order_independence:
  fixes kvs kvs' :: "('k list \<times> 'v::ab_semigroup_add) list"
  assumes "mset kvs = mset kvs'" and "mset xs = mset ys" and "\<forall>x \<in> set xs. well_shaped x"
  shows "(\<forall>key. fst (get_upstream (run (map (\<lambda>(k, v). Add k v) kvs)) key) =
               fst (get_upstream (run (map (\<lambda>(k, v). Add k v) kvs')) key)) \<and>
         (\<exists>m m'. add_terms [] xs = Inr m \<and> add_terms [] ys = Inr m' \<and>
                 map_of m = map_of m' \<and>
                 (\<forall>shp. contract m shp = contract m' shp) \<and>
                 (\<forall>target. contract_as m target = contract_as m' target))"
  using tree_order[OF assms(1)] accumulator_order[OF assms(2,3)] by blast

theorem order_independence_witness:
  "mset [([], 2::real), ([0::nat], 3), ([], 4)] = mset [([], 4), ([], 2), ([0], 3)] \<and>
   mset [Tensor [2] [1, 2], Tensor [1] [5], Tensor [2] [10, 20]] =
     mset [Tensor [2] [10, 20], Tensor [2] [1, 2], Tensor [1] [5]] \<and>
   well_shaped (Tensor [2] [1, 2]) \<and> well_shaped (Tensor [1] [5]) \<and>
   well_shaped (Tensor [2] [10, 20]) \<and>
   fst (get_upstream (run [Add [] (2::real), Add [0::nat] 3, Add [] 4]) [0]) =
     fst (get_upstream (run [Add [] (4::real), Add [] 2, Add [0::nat] 3]) [0]) \<and>
   (\<exists>m m'. add_terms [] [Tensor [2] [1, 2], Tensor [1] [5], Tensor [2] [10, 20]] = Inr m \<and>
           add_terms [] [Tensor [2] [10, 20], Tensor [2] [1, 2], Tensor [1] [5]] = Inr m' \<and>
           map_of m = map_of m' \<and> contract m [1] = contract m' [1])"
proof -
  have a: "mset [([], 2::real), ([0::nat], 3), ([], 4)] = mset [([], 4), ([], 2), ([0], 3)]"
    by simp
  have b: "mset [Tensor [2] [1, 2], Tensor [1] [5], Tensor [2] [10, 20]] =
           mset [Tensor [2] [10, 20], Tensor [2] [1, 2], Tensor [1] [5]]"
    by simp
  have c: "\<forall>x \<in> set [Tensor [2] [1, 2], Tensor [1] [5], Tensor [2] [10, 20]]. well_shaped x"
    by (simp add: well_shaped_def)
  from order_independence[OF a b c] obtain m m' where
    t: "\<forall>key. fst (get_upstream
                  (run (map (\<lambda>(k, v). Add k v) [([], 2::real), ([0::nat], 3), ([], 4)])) key) =
               fst (get_upstream
                  (run (map (\<lambda>(k, v). Add k v) [([], 4), ([], 2), ([0], 3)])) key)"
    and m: "add_terms [] [Tensor [2] [1, 2], Tensor [1] [5], Tensor [2] [10, 20]] = Inr m"
      "add_terms [] [Tensor [2] [10, 20], Tensor [2] [1, 2], Tensor [1] [5]] = Inr m'"
      "map_of m = map_of m'" "\<forall>shp. contract m shp = contract m' shp"
    by blast
  from t have "fst (get_upstream (run [Add [] (2::real), Add [0::nat] 3, Add [] 4]) [0]) =
               fst (get_upstream (run [Add [] (4::real), Add [] 2, Add [0::nat] 3]) [0])"
    by simp
  moreover from m have
    "\<exists>m m'. add_terms [] [Tensor [2] [1, 2], Tensor [1] [5], Tensor [2] [10, 20]] = Inr m \<and>
            add_terms [] [Tensor [2] [10, 20], Tensor [2] [1, 2], Tensor [1] [5]] = Inr m' \<and>
            map_of m = map_of m' \<and> contract m [1] = contract m' [1]"
    by blast
  ultimately show ?thesis using a b c by simp
qed


end
